theory Spec2Isabelle
  imports Main "HOL-Library.Word" "HOL-Library.Extended_Nat" "HOL-Library.Product_Lexorder"
begin

section \<open>The LRU-K replacer (lru\_k\_replacer.h, lru\_k\_replacer.cpp)\<close>

text \<open>
  Every C++ member that can throw or run into undefined behaviour returns a sum whose left
  side says what happened. \<open>OUT_OF_RANGE\<close> is the exception type named in
  \<open>RecordAccess\<close>.

  Modelled from the spec: \<open>InvalidState\<close> is the exception built by the one-argument
  constructor \<open>Exception(msg)\<close> in \<open>Remove\<close>; the constructor is declared in
  common/exception.h, which is not among the sources, and the specification calls the error
  \<open>InvalidState\<close>.

  The other two sides are undefined behaviour of the C++ program: \<open>EmptyHistory\<close> is
  \<open>front()\<close>, \<open>back()\<close> or \<open>pop_front()\<close> on an empty \<open>std::list\<close>, and
  \<open>DanglingIterator\<close> is the use of \<open>node_store_.find(..)->second\<close> on a key that is
  not stored, or of a stored list iterator whose cell is gone.
\<close>

datatype failure = OUT_OF_RANGE | InvalidState | EmptyHistory | DanglingIterator

text \<open>The two exceptions leave through \<open>throw\<close>; a caller can catch them.\<close>

fun thrown :: "failure \<Rightarrow> bool" where
  "thrown OUT_OF_RANGE = True"
| "thrown InvalidState = True"
| "thrown EmptyHistory = False"
| "thrown DanglingIterator = False"

text \<open>
  \<open>class LRUKNode\<close>. Timestamps and \<open>k_\<close> are \<open>size_t\<close>; they are only stored and
  compared, never added, so they are natural numbers here. \<open>frame_id_t\<close> is a signed
  integer type (the replacer tests \<open>frame_id < 0\<close>).
\<close>

record LRUKNode =
  history :: "nat list"
  node_k :: nat
  fid :: int
  is_evictable :: bool

definition GetBackwardKDistance :: "LRUKNode \<Rightarrow> failure + nat" where
  "GetBackwardKDistance n =
     (if length (history n) < node_k n then Inr 0
      else (case history n of [] \<Rightarrow> Inl EmptyHistory | t # _ \<Rightarrow> Inr t))"

definition LRUKNode_RecordAccess :: "LRUKNode \<Rightarrow> nat \<Rightarrow> failure + LRUKNode" where
  "LRUKNode_RecordAccess n timestamp =
     (if length (history n) = node_k n
      then (case history n of
              [] \<Rightarrow> Inl EmptyHistory
            | _ # rest \<Rightarrow> Inr (n\<lparr>history := rest @ [timestamp]\<rparr>))
      else Inr (n\<lparr>history := history n @ [timestamp]\<rparr>))"

text \<open>
  \<open>LRUKNode::operator<\<close>. Both length tests use the \<open>k_\<close> of the left operand, as the
  source does.
\<close>

definition node_less :: "LRUKNode \<Rightarrow> LRUKNode \<Rightarrow> failure + bool" where
  "node_less a other =
     (if length (history a) < node_k a \<and> length (history other) < node_k a
      then (if history a = [] \<or> history other = [] then Inl EmptyHistory
            else Inr (last (history a) < last (history other)))
      else (case GetBackwardKDistance a of
              Inl e \<Rightarrow> Inl e
            | Inr da \<Rightarrow> (case GetBackwardKDistance other of
                           Inl e \<Rightarrow> Inl e
                         | Inr db \<Rightarrow> Inr (da < db))))"

text \<open>
  \<open>class LRUKReplacer\<close>. \<open>node_store_\<close> maps a frame id to its node and to the iterator
  of the cell of \<open>lru_list_\<close> that holds this frame id; the iterator is set where the id is
  inserted and nowhere else, so it is modelled by the position of the id in the list, and a
  stored id that is not in the list is a dangling iterator. \<open>curr_size_\<close> and
  \<open>replacer_size_\<close> are \<open>size_t\<close>: 64-bit words, so that \<open>--curr_size_\<close> wraps.
\<close>

record LRUKReplacer =
  node_store :: "int \<Rightarrow> LRUKNode option"
  lru_list :: "int list"
  current_timestamp :: nat
  curr_size :: "64 word"
  replacer_size :: "64 word"
  repl_k :: nat

definition LRUKReplacer_new :: "64 word \<Rightarrow> nat \<Rightarrow> LRUKReplacer" where
  "LRUKReplacer_new num_frames k =
     \<lparr>node_store = Map.empty, lru_list = [], current_timestamp = 0, curr_size = 0,
      replacer_size = num_frames, repl_k = k\<rparr>"

text \<open>
  The debugging loops of \<open>Evict\<close> and \<open>RecordAccess\<close> print the list and, for every id
  in it, the history found in \<open>node_store_\<close>; the output is not modelled, the lookups are.
\<close>

definition print_list :: "LRUKReplacer \<Rightarrow> failure + LRUKReplacer" where
  "print_list r =
     (if list_all (\<lambda>g. node_store r g \<noteq> None) (lru_list r) then Inr r
      else Inl DanglingIterator)"

text \<open>
  The two insertion loops of \<open>RecordAccess\<close> (from \<open>lru_list_.begin()\<close> for a new frame,
  from the successor of the old cell for a known one) are the same scan: walk the cells,
  insert the frame before the first cell whose node is greater, \<open>push_back\<close> at the end.
\<close>

fun insert_scan :: "(int \<Rightarrow> LRUKNode option) \<Rightarrow> LRUKNode \<Rightarrow> int \<Rightarrow> int list \<Rightarrow> failure + int list" where
  "insert_scan st n f [] = Inr [f]"
| "insert_scan st n f (g # gs) =
     (case st g of
        None \<Rightarrow> Inl DanglingIterator
      | Some m \<Rightarrow>
          (case node_less n m of
             Inl e \<Rightarrow> Inl e
           | Inr True \<Rightarrow> Inr (f # g # gs)
           | Inr False \<Rightarrow>
               (case insert_scan st n f gs of
                  Inl e \<Rightarrow> Inl e
                | Inr l \<Rightarrow> Inr (g # l))))"

text \<open>
  \<open>LRUKReplacer::RecordAccess\<close>. \<open>timestamp\<close> is what the source reads from
  \<open>std::chrono::system_clock::now()\<close> through \<open>to_time_t\<close>: the wall clock in whole
  seconds. The clock is outside the program, so its reading is an argument.
\<close>

definition RecordAccess :: "LRUKReplacer \<Rightarrow> int \<Rightarrow> nat \<Rightarrow> failure + LRUKReplacer" where
  "RecordAccess r frame_id timestamp =
     (if frame_id < 0 \<or> unat (replacer_size r) \<le> nat frame_id then Inl OUT_OF_RANGE
      else
        (case node_store r frame_id of
           None \<Rightarrow>
             (case LRUKNode_RecordAccess
                     \<lparr>history = [], node_k = repl_k r, fid = frame_id, is_evictable = False\<rparr>
                     timestamp of
                Inl e \<Rightarrow> Inl e
              | Inr new_node \<Rightarrow>
                  (case insert_scan (node_store r) new_node frame_id (lru_list r) of
                     Inl e \<Rightarrow> Inl e
                   | Inr l \<Rightarrow>
                       print_list
                         (r\<lparr>node_store := (node_store r)(frame_id \<mapsto> new_node),
                            lru_list := l\<rparr>)))
         | Some lru_node \<Rightarrow>
             (case LRUKNode_RecordAccess lru_node timestamp of
                Inl e \<Rightarrow> Inl e
              | Inr node' \<Rightarrow>
                  (if frame_id \<notin> set (lru_list r) then Inl DanglingIterator
                   else
                     (case insert_scan ((node_store r)(frame_id \<mapsto> node')) node' frame_id
                             (tl (dropWhile (\<lambda>g. g \<noteq> frame_id) (lru_list r))) of
                        Inl e \<Rightarrow> Inl e
                      | Inr l \<Rightarrow>
                          print_list
                            (r\<lparr>node_store := (node_store r)(frame_id \<mapsto> node'),
                               lru_list :=
                                 takeWhile (\<lambda>g. g \<noteq> frame_id) (lru_list r) @ l\<rparr>))))))"

definition SetEvictable :: "LRUKReplacer \<Rightarrow> int \<Rightarrow> bool \<Rightarrow> LRUKReplacer" where
  "SetEvictable r frame_id set_evictable =
     (case node_store r frame_id of
        None \<Rightarrow> r
      | Some n \<Rightarrow>
          (if is_evictable n = set_evictable then r
           else if set_evictable
           then r\<lparr>node_store := (node_store r)(frame_id \<mapsto> n\<lparr>is_evictable := True\<rparr>),
                  curr_size := curr_size r + 1\<rparr>
           else r\<lparr>node_store := (node_store r)(frame_id \<mapsto> n\<lparr>is_evictable := False\<rparr>),
                  curr_size := curr_size r - 1\<rparr>))"

text \<open>Whether the node stored for a frame id is flagged evictable.\<close>

definition evictable_in :: "(int \<Rightarrow> LRUKNode option) \<Rightarrow> int \<Rightarrow> bool" where
  "evictable_in st g = (case st g of None \<Rightarrow> False | Some n \<Rightarrow> is_evictable n)"

text \<open>
  \<open>LRUKReplacer::Evict\<close>: after the size test and the debugging loop, the first cell of
  the list whose node is evictable is erased, with its node.
\<close>

definition Evict :: "LRUKReplacer \<Rightarrow> failure + (int option \<times> LRUKReplacer)" where
  "Evict r =
     (if curr_size r = 0 then Inr (None, r)
      else
        (case print_list r of
           Inl e \<Rightarrow> Inl e
         | Inr _ \<Rightarrow>
             (case dropWhile (\<lambda>g. \<not> evictable_in (node_store r) g) (lru_list r) of
                [] \<Rightarrow> Inr (None, r)
              | frame_id # rest \<Rightarrow>
                  Inr (Some frame_id,
                       r\<lparr>node_store := (node_store r)(frame_id := None),
                         lru_list :=
                           takeWhile (\<lambda>g. \<not> evictable_in (node_store r) g) (lru_list r) @ rest,
                         curr_size := curr_size r - 1\<rparr>))))"

definition Remove :: "LRUKReplacer \<Rightarrow> int \<Rightarrow> failure + LRUKReplacer" where
  "Remove r frame_id =
     (case node_store r frame_id of
        None \<Rightarrow> Inr r
      | Some n \<Rightarrow>
          (if \<not> is_evictable n then Inl InvalidState
           else if frame_id \<notin> set (lru_list r) then Inl DanglingIterator
           else Inr (r\<lparr>node_store := (node_store r)(frame_id := None),
                       lru_list := remove1 frame_id (lru_list r),
                       curr_size := curr_size r - 1\<rparr>)))"

definition Size :: "LRUKReplacer \<Rightarrow> 64 word" where
  "Size r = curr_size r"

subsection \<open>Sequences of replacer calls\<close>

text \<open>
  A call of the public interface. \<open>OpRecordAccess f t\<close> is \<open>RecordAccess(f)\<close> made when
  the clock reads \<open>t\<close>.
\<close>

datatype op = OpRecordAccess int nat | OpSetEvictable int bool | OpEvict | OpRemove int

fun step :: "LRUKReplacer \<Rightarrow> op \<Rightarrow> failure + LRUKReplacer" where
  "step r (OpRecordAccess f t) = RecordAccess r f t"
| "step r (OpSetEvictable f b) = Inr (SetEvictable r f b)"
| "step r OpEvict = (case Evict r of Inl e \<Rightarrow> Inl e | Inr (_, r') \<Rightarrow> Inr r')"
| "step r (OpRemove f) = Remove r f"

text \<open>
  Both exceptions are raised before the replacer is changed, so a caller that catches one
  goes on with the replacer as it was. Undefined behaviour ends the run.
\<close>

fun run :: "LRUKReplacer \<Rightarrow> op list \<Rightarrow> failure + LRUKReplacer" where
  "run r [] = Inr r"
| "run r (x # xs) =
     (case step r x of
        Inl e \<Rightarrow> (if thrown e then run r xs else Inl e)
      | Inr r' \<Rightarrow> run r' xs)"

subsection \<open>Well-formed replacers\<close>

text \<open>
  What every replacer built by the public interface satisfies: the list holds each tracked
  frame once, every node has a non-empty history of at most \<open>k_\<close> timestamps and a valid
  frame id, and \<open>curr_size_\<close> counts the evictable nodes.
\<close>

definition node_ok :: "LRUKReplacer \<Rightarrow> int \<Rightarrow> LRUKNode \<Rightarrow> bool" where
  "node_ok r f n \<longleftrightarrow>
     history n \<noteq> [] \<and> length (history n) \<le> repl_k r \<and> node_k n = repl_k r
     \<and> 0 \<le> f \<and> nat f < unat (replacer_size r)"

definition well_formed :: "LRUKReplacer \<Rightarrow> bool" where
  "well_formed r \<longleftrightarrow>
     distinct (lru_list r) \<and> set (lru_list r) = dom (node_store r)
     \<and> (\<forall>f n. node_store r f = Some n \<longrightarrow> node_ok r f n)
     \<and> unat (curr_size r) = length (filter (evictable_in (node_store r)) (lru_list r))"

text \<open>
  Where the insertion scan puts a frame: after the cells \<open>ys\<close> whose nodes are not
  greater than the node, before the first cell of \<open>zs\<close>, whose node is greater.
\<close>

definition scan_split :: "(int \<Rightarrow> LRUKNode option) \<Rightarrow> LRUKNode \<Rightarrow> int list \<Rightarrow> int list \<Rightarrow> bool" where
  "scan_split st n ys zs \<longleftrightarrow>
     (\<forall>g\<in>set ys. \<exists>m. st g = Some m \<and> node_less n m = Inr False)
     \<and> (zs = [] \<or> (\<exists>m. st (hd zs) = Some m \<and> node_less n m = Inr True))"

text \<open>The node of a tracked frame after one more access at time \<open>t\<close>.\<close>

definition accessed :: "LRUKNode \<Rightarrow> nat \<Rightarrow> LRUKNode" where
  "accessed n t =
     n\<lparr>history := (if length (history n) = node_k n then tl (history n) else history n) @ [t]\<rparr>"

subsection \<open>What a call did to the set of evictable frames\<close>

text \<open>
  The events the size invariant of the specification counts. A \<open>SetEvictable\<close> call is a
  transition when it flips the flag of a tracked frame; an \<open>Evict\<close> is successful when it
  returns a frame; a \<open>Remove\<close> is successful when it erases a tracked frame.
\<close>

datatype effect = BecameEvictable | BecameNonEvictable | Evicted | Removed | NoEffect

fun effect_of :: "LRUKReplacer \<Rightarrow> op \<Rightarrow> effect" where
  "effect_of r (OpRecordAccess f t) = NoEffect"
| "effect_of r (OpSetEvictable f b) =
     (case node_store r f of
        None \<Rightarrow> NoEffect
      | Some n \<Rightarrow>
          (if is_evictable n = b then NoEffect
           else if b then BecameEvictable else BecameNonEvictable))"
| "effect_of r OpEvict =
     (case Evict r of Inr (Some _, _) \<Rightarrow> Evicted | _ \<Rightarrow> NoEffect)"
| "effect_of r (OpRemove f) =
     (case Remove r f of
        Inr _ \<Rightarrow> (if node_store r f = None then NoEffect else Removed)
      | Inl _ \<Rightarrow> NoEffect)"

text \<open>The events of a run, call by call, along the states \<open>run\<close> goes through.\<close>

fun effects :: "LRUKReplacer \<Rightarrow> op list \<Rightarrow> effect list" where
  "effects r [] = []"
| "effects r (x # xs) =
     effect_of r x #
     (case step r x of
        Inl e \<Rightarrow> (if thrown e then effects r xs else [])
      | Inr r' \<Rightarrow> effects r' xs)"

fun delta :: "effect \<Rightarrow> int" where
  "delta BecameEvictable = 1"
| "delta BecameNonEvictable = - 1"
| "delta Evicted = - 1"
| "delta Removed = - 1"
| "delta NoEffect = 0"

subsection \<open>The order of the list\<close>

text \<open>
  The key \<open>operator<\<close> compares by, when every timestamp is positive: nodes with fewer
  than \<open>k_\<close> accesses come first, ordered by their last access; nodes with \<open>k_\<close> accesses
  follow, ordered by the oldest access they remember.
\<close>

definition rank :: "LRUKNode \<Rightarrow> nat \<times> nat" where
  "rank n =
     (if length (history n) < node_k n then (0, last (history n)) else (1, hd (history n)))"

definition rank_in :: "(int \<Rightarrow> LRUKNode option) \<Rightarrow> int \<Rightarrow> nat \<times> nat" where
  "rank_in st g = (case st g of None \<Rightarrow> (0, 0) | Some n \<Rightarrow> rank n)"

definition history_ok :: "nat \<Rightarrow> LRUKNode \<Rightarrow> bool" where
  "history_ok t n \<longleftrightarrow> sorted (history n) \<and> (\<forall>x\<in>set (history n). 0 < x \<and> x \<le> t)"

definition ordered :: "nat \<Rightarrow> LRUKReplacer \<Rightarrow> bool" where
  "ordered t r \<longleftrightarrow>
     (\<forall>f n. node_store r f = Some n \<longrightarrow> history_ok t n)
     \<and> sorted (map (rank_in (node_store r)) (lru_list r))"

text \<open>
  The clock readings of a sequence of calls: \<open>clock_ok t xs\<close> says that, starting from the
  reading \<open>t\<close>, the readings are positive and never go back; \<open>clock_end t xs\<close> is the last
  reading.
\<close>

fun clock_ok :: "nat \<Rightarrow> op list \<Rightarrow> bool" where
  "clock_ok t [] = True"
| "clock_ok t (OpRecordAccess f now # xs) = (0 < now \<and> t \<le> now \<and> clock_ok now xs)"
| "clock_ok t (OpSetEvictable f b # xs) = clock_ok t xs"
| "clock_ok t (OpEvict # xs) = clock_ok t xs"
| "clock_ok t (OpRemove f # xs) = clock_ok t xs"

fun clock_end :: "nat \<Rightarrow> op list \<Rightarrow> nat" where
  "clock_end t [] = t"
| "clock_end t (OpRecordAccess f now # xs) = clock_end now xs"
| "clock_end t (OpSetEvictable f b # xs) = clock_end t xs"
| "clock_end t (OpEvict # xs) = clock_end t xs"
| "clock_end t (OpRemove f # xs) = clock_end t xs"

text \<open>
  The timestamp source of the specification: a counter incremented per \<open>record_access\<close>.
  \<open>counter_stamped c xs\<close> are the calls \<open>xs\<close> with the clock readings replaced by the
  values of such a counter that stands at \<open>c\<close>: the order of the calls.
\<close>

fun counter_stamped :: "nat \<Rightarrow> op list \<Rightarrow> op list" where
  "counter_stamped c [] = []"
| "counter_stamped c (OpRecordAccess f t # xs) =
     OpRecordAccess f (Suc c) # counter_stamped (Suc c) xs"
| "counter_stamped c (OpSetEvictable f b # xs) = OpSetEvictable f b # counter_stamped c xs"
| "counter_stamped c (OpEvict # xs) = OpEvict # counter_stamped c xs"
| "counter_stamped c (OpRemove f # xs) = OpRemove f # counter_stamped c xs"

subsection \<open>The eviction rule of the specification\<close>

text \<open>
  The specification's words: at time \<open>now\<close> the backward K-distance of a frame with at
  least \<open>k\<close> recorded accesses is \<open>now - history[0]\<close>, and \<open>+\<infinity>\<close> with fewer
  accesses. (The replacer keeps at most \<open>k\<close> timestamps, so \<open>history[0]\<close> is the k-th
  last access.)
\<close>

definition backward_k_distance :: "nat \<Rightarrow> LRUKNode \<Rightarrow> enat" where
  "backward_k_distance now n =
     (if length (history n) < node_k n then \<infinity> else enat (now - hd (history n)))"

text \<open>
  \<open>victim_before now a b\<close>: the rule picks \<open>a\<close> rather than \<open>b\<close>. Either \<open>a\<close> has the
  larger distance, or the distances are equal and \<open>a\<close> wins the tie: among \<open>+\<infinity>\<close>
  frames by the earlier most recent access, among finite distances by the older k-th last
  access.
\<close>

definition victim_before :: "nat \<Rightarrow> LRUKNode \<Rightarrow> LRUKNode \<Rightarrow> bool" where
  "victim_before now a b \<longleftrightarrow>
     backward_k_distance now b < backward_k_distance now a
     \<or> (backward_k_distance now a = backward_k_distance now b
        \<and> (if length (history a) < node_k a
            then last (history a) \<le> last (history b)
            else hd (history a) \<le> hd (history b)))"

text \<open>Every node of a store has a non-empty history of positive timestamps and the same \<open>k_\<close>.\<close>

definition comparable :: "nat \<Rightarrow> (int \<Rightarrow> LRUKNode option) \<Rightarrow> bool" where
  "comparable k st \<longleftrightarrow>
     (\<forall>g m. st g = Some m \<longrightarrow> history m \<noteq> [] \<and> node_k m = k \<and> (\<forall>x\<in>set (history m). 0 < x))"

section \<open>Frames, the disk scheduler and the page guards\<close>

text \<open>
  The guards and the scheduler run in several threads. The model is the sequential one: the
  calls of one thread in program order, with the worker thread of the scheduler run to the
  point where it blocks whenever a caller waits for it. Latches never block in such a run, so
  they are not state; their acquisitions and releases are recorded, in program order, in a
  trace, together with the other actions whose order the specification talks about.
\<close>

subsection \<open>Frame headers\<close>

text \<open>
  Modelled from the spec: \<open>FrameHeader\<close> is declared in buffer/buffer\_pool\_manager.h, which
  is not among the sources. The fields are the ones the guards use (\<open>frame_id_\<close>,
  \<open>pin_count_\<close>, \<open>is_dirty_\<close>, the buffer behind \<open>GetData()\<close> and
  \<open>GetDataMut()\<close>), typed as in the data model of the specification; \<open>pin_count_\<close> is
  an atomic \<open>size_t\<close>. The latches \<open>rwlatch_\<close> and \<open>latch_\<close> appear in the trace only.
\<close>

record FrameHeader =
  frame_id :: int
  data :: "8 word list"
  pin_count :: "64 word"
  is_dirty :: bool

subsection \<open>Disk manager, requests, promises\<close>

text \<open>
  Modelled from the spec: the Disk Manager is an external collaborator with two blocking
  calls, \<open>read_page\<close> and \<open>write_page\<close>, which can fail (\<open>IoFailed\<close>). In
  disk\_scheduler.cpp both calls are statements whose value is not used, so a failure is not
  visible to the caller: a failed write persists nothing, a failed read leaves the buffer as
  it was. \<open>io_fails\<close> says for which pages the transfer fails.
\<close>

record DiskManager =
  pages :: "int \<Rightarrow> 8 word list"
  io_fails :: "int \<Rightarrow> bool"

definition WritePage :: "DiskManager \<Rightarrow> int \<Rightarrow> 8 word list \<Rightarrow> DiskManager" where
  "WritePage dm pid buf = (if io_fails dm pid then dm else dm\<lparr>pages := (pages dm)(pid := buf)\<rparr>)"

definition ReadPage :: "DiskManager \<Rightarrow> int \<Rightarrow> 8 word list option" where
  "ReadPage dm pid = (if io_fails dm pid then None else Some (pages dm pid))"

text \<open>
  \<open>struct DiskRequest\<close>, with the fields disk\_scheduler.cpp and page\_guard.cpp use.
  \<open>data_\<close> is a \<open>char *\<close> into the buffer of a frame: the address of that frame.
  \<open>callback_\<close> is a \<open>std::promise<bool>\<close>: the handle of a promise in the store of
  promises, whose slot is \<open>None\<close> until \<open>set_value\<close>.
\<close>

record DiskRequest =
  is_write :: bool
  req_data :: nat
  req_page_id :: int
  callback :: nat

datatype lock = RwLatchShared nat | RwLatchExclusive nat | DataLatch nat | BpmLatch

datatype event =
    Acquire lock
  | Release lock
  | DirtyStore nat bool
  | PinFetchSub nat
  | SetEvictableCall int bool
  | Scheduled DiskRequest
  | WritePageCall int nat
  | ReadPageCall int nat
  | Fulfilled nat bool
  | Awaited nat

text \<open>
  The worker thread of the scheduler: waiting in \<open>Get()\<close> or serving (\<open>Alive\<close>),
  returned from \<open>StartWorkerThread\<close> (\<open>Exited\<close>), or ended by an exception that
  nothing catches (\<open>Terminated\<close>, which ends the process).
\<close>

datatype worker_status = Alive | Exited | Terminated

text \<open>
  Everything the guards of one buffer pool share: the frames by address, the replacer, the
  scheduler with its channel and worker, the promises by handle, and the trace.
\<close>

record world =
  frames :: "nat \<Rightarrow> FrameHeader"
  replacer :: LRUKReplacer
  disk_manager :: DiskManager
  request_queue :: "DiskRequest option list"
  background_thread :: worker_status
  promises :: "nat \<Rightarrow> bool option"
  next_promise :: nat
  trace :: "event list"

definition log_event :: "event \<Rightarrow> world \<Rightarrow> world" where
  "log_event e w = w\<lparr>trace := trace w @ [e]\<rparr>"

text \<open>
  Modelled from the spec: \<open>DiskScheduler::CreatePromise\<close> is defined in
  storage/disk/disk\_scheduler.h, which is not among the sources; it produces a fresh
  single-shot completion slot.
\<close>

definition CreatePromise :: "world \<Rightarrow> nat \<times> world" where
  "CreatePromise w =
     (next_promise w,
      w\<lparr>promises := (promises w)(next_promise w := None), next_promise := next_promise w + 1\<rparr>)"

text \<open>
  Modelled from the spec: \<open>request_queue_\<close> is a \<open>Channel\<close> (common/channel.h, not among
  the sources), one FIFO channel: \<open>Put\<close> appends, \<open>Get\<close> takes the head and blocks while
  the channel is empty.

  \<open>DiskScheduler::Schedule\<close> puts the request; the destructor puts the sentinel
  \<open>std::nullopt\<close>.
\<close>

definition Schedule :: "DiskRequest \<Rightarrow> world \<Rightarrow> world" where
  "Schedule r w = log_event (Scheduled r) (w\<lparr>request_queue := request_queue w @ [Some r]\<rparr>)"

definition put_sentinel :: "world \<Rightarrow> world" where
  "put_sentinel w = w\<lparr>request_queue := request_queue w @ [None]\<rparr>"

text \<open>
  One turn of the loop of \<open>StartWorkerThread\<close> for a request: the call of the disk manager,
  then \<open>callback_.set_value(true)\<close>. \<open>set_value\<close> on a promise that already holds a
  value throws; nothing in the worker catches it.
\<close>

definition dispatch :: "DiskRequest \<Rightarrow> world \<Rightarrow> world" where
  "dispatch r w =
     (if is_write r
      then log_event (WritePageCall (req_page_id r) (req_data r))
             (w\<lparr>disk_manager :=
                  WritePage (disk_manager w) (req_page_id r) (data (frames w (req_data r)))\<rparr>)
      else log_event (ReadPageCall (req_page_id r) (req_data r))
             (case ReadPage (disk_manager w) (req_page_id r) of
                None \<Rightarrow> w
              | Some buf \<Rightarrow>
                  w\<lparr>frames := (frames w)(req_data r := (frames w (req_data r))\<lparr>data := buf\<rparr>)\<rparr>))"

definition set_value :: "nat \<Rightarrow> bool \<Rightarrow> world \<Rightarrow> world" where
  "set_value p b w =
     (case promises w p of
        Some _ \<Rightarrow> w\<lparr>background_thread := Terminated\<rparr>
      | None \<Rightarrow> log_event (Fulfilled p b) (w\<lparr>promises := (promises w)(p \<mapsto> b)\<rparr>))"

text \<open>
  The loop over what the channel holds: it stops at the sentinel (the thread returns), when
  the channel is empty (the thread waits in \<open>Get\<close>), or when the thread is terminated.
\<close>

fun worker_loop :: "DiskRequest option list \<Rightarrow> world \<Rightarrow> world" where
  "worker_loop [] w = w\<lparr>request_queue := []\<rparr>"
| "worker_loop (None # q) w = w\<lparr>request_queue := q, background_thread := Exited\<rparr>"
| "worker_loop (Some r # q) w =
     (let w' = set_value (callback r) True (dispatch r w)
      in if background_thread w' = Terminated then w'\<lparr>request_queue := q\<rparr>
         else worker_loop q w')"

definition StartWorkerThread :: "world \<Rightarrow> world" where
  "StartWorkerThread w =
     (if background_thread w = Alive then worker_loop (request_queue w) w else w)"

subsection \<open>Page guards\<close>

text \<open>
  \<open>ReadPageGuard\<close> and \<open>WritePageGuard\<close> have the same fields. \<open>frame_\<close> is a shared
  pointer: the address of the frame. \<open>replacer_\<close>, \<open>bpm_latch_\<close> and
  \<open>disk_scheduler_\<close> point to the objects of the one buffer pool, which are in the world.
\<close>

record PageGuard =
  page_id :: int
  frame :: nat
  is_valid :: bool




text \<open>
  How a member function ends. Modelled from the spec: \<open>BUSTUB_ENSURE\<close> is a macro of
  common/macros.h, not among the sources; use of an invalid guard aborts. \<open>Blocked\<close> is a
  call that never returns.
\<close>

datatype 'a outcome = Returned 'a | Aborted | Blocked

text \<open>
  The wait on the future of a promise: the worker runs while the caller waits; the caller
  goes on when the promise holds a value.
\<close>

definition await :: "nat \<Rightarrow> world \<Rightarrow> world outcome" where
  "await p w =
     (let w' = StartWorkerThread w
      in if background_thread w' = Terminated then Aborted
         else (case promises w' p of
                 None \<Rightarrow> Blocked
               | Some _ \<Rightarrow> Returned (log_event (Awaited p) w')))"

definition ReadPageGuard_Flush :: "PageGuard \<Rightarrow> world \<Rightarrow> world outcome" where
  "ReadPageGuard_Flush g w =
     (if \<not> is_valid g then Aborted
      else
        (let w1 = log_event (Acquire (DataLatch (frame g))) w
         in if is_dirty (frames w1 (frame g))
            then
              (let w2 = log_event (DirtyStore (frame g) False)
                          (w1\<lparr>frames := (frames w1)(frame g := (frames w1 (frame g))\<lparr>is_dirty := False\<rparr>)\<rparr>);
                   w3 = log_event (Release (DataLatch (frame g))) w2;
                   (promise, w4) = CreatePromise w3;
                   request = \<lparr>is_write = True, req_data = frame g, req_page_id = page_id g,
                              callback = promise\<rparr>
               in await promise (Schedule request w4))
            else Returned (log_event (Release (DataLatch (frame g))) w1)))"

definition WritePageGuard_Flush :: "PageGuard \<Rightarrow> world \<Rightarrow> world outcome" where
  "WritePageGuard_Flush g w =
     (if \<not> is_valid g then Aborted
      else
        (let w1 = log_event (Acquire (DataLatch (frame g))) w
         in if is_dirty (frames w1 (frame g))
            then
              (let w2 = log_event (DirtyStore (frame g) False)
                          (w1\<lparr>frames := (frames w1)(frame g := (frames w1 (frame g))\<lparr>is_dirty := False\<rparr>)\<rparr>);
                   w3 = log_event (Release (DataLatch (frame g))) w2;
                   (promise, w4) = CreatePromise w3;
                   request = \<lparr>is_write = True, req_data = frame g, req_page_id = page_id g,
                              callback = promise\<rparr>
               in await promise (Schedule request w4))
            else Returned (log_event (Release (DataLatch (frame g))) w1)))"

text \<open>
  The end of both \<open>Drop\<close> functions: \<open>fetch_sub(1)\<close> on the pin count and, when the
  value before was 1, the re-check under the latch of the buffer pool. Other threads can pin
  the frame between the two atomic operations; \<open>others\<close> is what they did to the counter in
  between (the identity in a run of one thread).
\<close>

definition unpin :: "(64 word \<Rightarrow> 64 word) \<Rightarrow> nat \<Rightarrow> world \<Rightarrow> world" where
  "unpin others p w =
     (let cnt = pin_count (frames w p);
          w1 = log_event (PinFetchSub p)
                 (w\<lparr>frames := (frames w)(p := (frames w p)\<lparr>pin_count := cnt - 1\<rparr>)\<rparr>)
      in if cnt = 1
         then
           (let w2 = log_event (Acquire BpmLatch)
                       (w1\<lparr>frames := (frames w1)(p := (frames w1 p)
                                         \<lparr>pin_count := others (pin_count (frames w1 p))\<rparr>)\<rparr>);
                w3 = (if pin_count (frames w2 p) = 0
                      then log_event (SetEvictableCall (frame_id (frames w2 p)) True)
                             (w2\<lparr>replacer := SetEvictable (replacer w2) (frame_id (frames w2 p)) True\<rparr>)
                      else w2)
            in log_event (Release BpmLatch) w3)
         else w1)"

definition ReadPageGuard_Drop ::
    "(64 word \<Rightarrow> 64 word) \<Rightarrow> PageGuard \<times> world \<Rightarrow> PageGuard \<times> world" where
  "ReadPageGuard_Drop others gw =
     (case gw of (g, w) \<Rightarrow>
        if is_valid g
        then (g\<lparr>is_valid := False\<rparr>,
              unpin others (frame g) (log_event (Release (RwLatchShared (frame g))) w))
        else (g, w))"

definition WritePageGuard_Drop ::
    "(64 word \<Rightarrow> 64 word) \<Rightarrow> PageGuard \<times> world \<Rightarrow> PageGuard \<times> world" where
  "WritePageGuard_Drop others gw =
     (case gw of (g, w) \<Rightarrow>
        if is_valid g
        then
          (let w1 = log_event (Acquire (DataLatch (frame g))) w;
               w2 = log_event (DirtyStore (frame g) True)
                      (w1\<lparr>frames := (frames w1)(frame g := (frames w1 (frame g))\<lparr>is_dirty := True\<rparr>)\<rparr>);
               w3 = log_event (Release (DataLatch (frame g))) w2;
               w4 = log_event (Release (RwLatchExclusive (frame g))) w3
           in (g\<lparr>is_valid := False\<rparr>, unpin others (frame g) w4))
        else (g, w))"

subsection \<open>Several calls in a row\<close>

text \<open>The requests of a list, scheduled in order.\<close>

fun schedule_all :: "DiskRequest list \<Rightarrow> world \<Rightarrow> world" where
  "schedule_all [] w = w"
| "schedule_all (r # rs) w = schedule_all rs (Schedule r w)"

text \<open>What the worker does for one request: the call of the disk manager it makes.\<close>

definition disk_call :: "DiskRequest \<Rightarrow> event" where
  "disk_call r =
     (if is_write r then WritePageCall (req_page_id r) (req_data r)
      else ReadPageCall (req_page_id r) (req_data r))"


text \<open>A world for the examples: one clean frame for page 7, pinned once, nothing pending.\<close>

definition example_world :: world where
  "example_world =
     \<lparr>frames = (\<lambda>_. \<lparr>frame_id = 0, data = [1, 2, 3], pin_count = 1, is_dirty = False\<rparr>),
      replacer = LRUKReplacer_new 3 2,
      disk_manager = \<lparr>pages = (\<lambda>_. []), io_fails = (\<lambda>_. False)\<rparr>,
      request_queue = [], background_thread = Alive, promises = (\<lambda>_. None),
      next_promise = 0, trace = []\<rparr>"

text \<open>The example world with a disk manager whose transfers all fail, and a write request.\<close>

definition failing_world :: world where
  "failing_world =
     example_world\<lparr>disk_manager := \<lparr>pages = (\<lambda>_. []), io_fails = (\<lambda>_. True)\<rparr>\<rparr>"

definition example_request :: DiskRequest where
  "example_request = \<lparr>is_write = True, req_data = 0, req_page_id = 7, callback = 0\<rparr>"

text \<open>A valid guard on the frame at address 0, holding page 7, and the frame made dirty.\<close>

definition example_guard :: PageGuard where
  "example_guard = \<lparr>page_id = 7, frame = 0, is_valid = True\<rparr>"

definition make_dirty :: "nat \<Rightarrow> world \<Rightarrow> world" where
  "make_dirty p w = w\<lparr>frames := (frames w)(p := (frames w p)\<lparr>is_dirty := True\<rparr>)\<rparr>"



section \<open>Properties of the replacer\<close>

subsection \<open>Exceptions\<close>

lemma GetBackwardKDistance_not_thrown: "GetBackwardKDistance n = Inl e \<Longrightarrow> e = EmptyHistory"
  by (auto simp: GetBackwardKDistance_def split: if_splits list.splits)

lemma LRUKNode_RecordAccess_not_thrown: "LRUKNode_RecordAccess n t = Inl e \<Longrightarrow> e = EmptyHistory"
  by (auto simp: LRUKNode_RecordAccess_def split: if_splits list.splits)

lemma node_less_not_thrown: "node_less a b = Inl e \<Longrightarrow> e = EmptyHistory"
  by (auto simp: node_less_def split: if_splits sum.splits dest: GetBackwardKDistance_not_thrown)

lemma insert_scan_not_thrown: "insert_scan st n f xs = Inl e \<Longrightarrow> \<not> thrown e"
  by (induction xs arbitrary: e)
     (auto split: option.splits sum.splits bool.splits dest: node_less_not_thrown)

lemma print_list_not_thrown: "print_list r = Inl e \<Longrightarrow> e = DanglingIterator"
  by (auto simp: print_list_def split: if_splits)

lemma RecordAccess_thrown:
  "RecordAccess r f t = Inl e \<Longrightarrow> thrown e \<Longrightarrow> e = OUT_OF_RANGE \<and> (f < 0 \<or> unat (replacer_size r) \<le> nat f)"
  by (auto simp: RecordAccess_def split: if_splits option.splits sum.splits
      dest: LRUKNode_RecordAccess_not_thrown insert_scan_not_thrown print_list_not_thrown)

lemma RecordAccess_out_of_range:
  "f < 0 \<or> unat (replacer_size r) \<le> nat f \<Longrightarrow> RecordAccess r f t = Inl OUT_OF_RANGE"
  by (simp add: RecordAccess_def)

lemma Remove_thrown:
  "Remove r f = Inl e \<Longrightarrow> thrown e \<Longrightarrow> e = InvalidState \<and> (\<exists>n. node_store r f = Some n \<and> \<not> is_evictable n)"
  by (auto simp: Remove_def split: option.splits if_splits)

lemma Remove_invalid:
  "node_store r f = Some n \<Longrightarrow> \<not> is_evictable n \<Longrightarrow> Remove r f = Inl InvalidState"
  by (simp add: Remove_def)

lemma Evict_not_thrown: "Evict r = Inl e \<Longrightarrow> \<not> thrown e"
  by (auto simp: Evict_def split: if_splits sum.splits list.splits dest: print_list_not_thrown)

text \<open>
  Claim C7. The only exceptions the replacer raises are \<open>OUT_OF_RANGE\<close> from
  \<open>RecordAccess\<close>, exactly when the frame id is negative or at least
  \<open>replacer_size_\<close>, and \<open>InvalidState\<close> from \<open>Remove\<close>, exactly when the frame is
  tracked and not evictable. \<open>Evict\<close> and \<open>SetEvictable\<close> raise nothing, and
  \<open>SetEvictable\<close> and \<open>Remove\<close> on a frame that is not tracked return with the
  replacer unchanged.
\<close>

theorem replacer_reportable_errors:
  "(RecordAccess r f t = Inl OUT_OF_RANGE \<longleftrightarrow> f < 0 \<or> int (unat (replacer_size r)) \<le> f)
   \<and> (\<forall>e. RecordAccess r f t = Inl e \<and> thrown e \<longrightarrow> e = OUT_OF_RANGE)
   \<and> (Remove r f = Inl InvalidState \<longleftrightarrow> (\<exists>n. node_store r f = Some n \<and> \<not> is_evictable n))
   \<and> (\<forall>e. Remove r f = Inl e \<and> thrown e \<longrightarrow> e = InvalidState)
   \<and> (\<forall>e. Evict r = Inl e \<longrightarrow> \<not> thrown e)
   \<and> (node_store r f = None \<longrightarrow> SetEvictable r f b = r \<and> Remove r f = Inr r)"
proof -
  have a: "RecordAccess r f t = Inl OUT_OF_RANGE \<longleftrightarrow> f < 0 \<or> int (unat (replacer_size r)) \<le> f"
  proof
    assume "RecordAccess r f t = Inl OUT_OF_RANGE"
    then have "f < 0 \<or> unat (replacer_size r) \<le> nat f"
      using RecordAccess_thrown [of r f t OUT_OF_RANGE] by simp
    then show "f < 0 \<or> int (unat (replacer_size r)) \<le> f" by linarith
  next
    assume "f < 0 \<or> int (unat (replacer_size r)) \<le> f"
    then have "f < 0 \<or> unat (replacer_size r) \<le> nat f" by linarith
    then show "RecordAccess r f t = Inl OUT_OF_RANGE" by (rule RecordAccess_out_of_range)
  qed
  have b: "\<forall>e. RecordAccess r f t = Inl e \<and> thrown e \<longrightarrow> e = OUT_OF_RANGE"
    using RecordAccess_thrown by blast
  have c: "Remove r f = Inl InvalidState \<longleftrightarrow> (\<exists>n. node_store r f = Some n \<and> \<not> is_evictable n)"
    using Remove_thrown [of r f InvalidState] Remove_invalid [of r f] by auto
  have d: "\<forall>e. Remove r f = Inl e \<and> thrown e \<longrightarrow> e = InvalidState"
    using Remove_thrown by blast
  have e: "\<forall>e. Evict r = Inl e \<longrightarrow> \<not> thrown e"
    using Evict_not_thrown by blast
  have g: "node_store r f = None \<longrightarrow> SetEvictable r f b = r \<and> Remove r f = Inr r"
    by (simp add: SetEvictable_def Remove_def)
  from a b c d e g show ?thesis by blast
qed

theorem replacer_reportable_errors_witness:
  "RecordAccess (LRUKReplacer_new 3 2) 3 10 = Inl OUT_OF_RANGE
   \<and> SetEvictable (LRUKReplacer_new 3 2) 1 True = LRUKReplacer_new 3 2
   \<and> Remove (LRUKReplacer_new 3 2) 1 = Inr (LRUKReplacer_new 3 2)"
  using replacer_reportable_errors [of "LRUKReplacer_new 3 2" 3 10 True]
        replacer_reportable_errors [of "LRUKReplacer_new 3 2" 1 10 True]
  by (simp add: LRUKReplacer_new_def)

subsection \<open>The public interface keeps replacers well formed\<close>

lemma GetBackwardKDistance_total:
  "history n \<noteq> [] \<Longrightarrow> \<exists>d. GetBackwardKDistance n = Inr d"
  by (cases "history n") (auto simp: GetBackwardKDistance_def)

lemma node_less_total:
  "history a \<noteq> [] \<Longrightarrow> history b \<noteq> [] \<Longrightarrow> \<exists>c. node_less a b = Inr c"
  using GetBackwardKDistance_total [of a] GetBackwardKDistance_total [of b]
  by (auto simp: node_less_def)

lemma insert_scan_split:
  assumes "\<forall>g\<in>set xs. \<exists>m. st g = Some m \<and> history m \<noteq> []" and "history n \<noteq> []"
  shows "\<exists>ys zs. xs = ys @ zs \<and> insert_scan st n f xs = Inr (ys @ f # zs)
           \<and> (\<forall>g\<in>set ys. \<exists>m. st g = Some m \<and> node_less n m = Inr False)
           \<and> (zs = [] \<or> (\<exists>m. st (hd zs) = Some m \<and> node_less n m = Inr True))"
  using assms(1)
proof (induction xs)
  case Nil
  then show ?case by simp
next
  case (Cons g gs)
  from Cons.prems obtain m where m: "st g = Some m" "history m \<noteq> []" by auto
  from node_less_total [OF assms(2) m(2)] obtain c where c: "node_less n m = Inr c" by blast
  show ?case
  proof (cases c)
    case True
    have "g # gs = [] @ (g # gs) \<and> insert_scan st n f (g # gs) = Inr ([] @ f # (g # gs))
           \<and> (\<forall>g\<in>set []. \<exists>m. st g = Some m \<and> node_less n m = Inr False)
           \<and> (g # gs = [] \<or> (\<exists>m. st (hd (g # gs)) = Some m \<and> node_less n m = Inr True))"
      using m c True by simp
    then show ?thesis by blast
  next
    case False
    from Cons.IH Cons.prems obtain ys zs where IH:
      "gs = ys @ zs" "insert_scan st n f gs = Inr (ys @ f # zs)"
      "\<forall>g\<in>set ys. \<exists>m. st g = Some m \<and> node_less n m = Inr False"
      "zs = [] \<or> (\<exists>m. st (hd zs) = Some m \<and> node_less n m = Inr True)"
      by auto
    have "g # gs = (g # ys) @ zs \<and> insert_scan st n f (g # gs) = Inr ((g # ys) @ f # zs)
           \<and> (\<forall>g\<in>set (g # ys). \<exists>m. st g = Some m \<and> node_less n m = Inr False)
           \<and> (zs = [] \<or> (\<exists>m. st (hd zs) = Some m \<and> node_less n m = Inr True))"
      using m c False IH by simp
    then show ?thesis by blast
  qed
qed

lemma LRUKNode_RecordAccess_new:
  "0 < k \<Longrightarrow> LRUKNode_RecordAccess \<lparr>history = [], node_k = k, fid = f, is_evictable = False\<rparr> t
     = Inr \<lparr>history = [t], node_k = k, fid = f, is_evictable = False\<rparr>"
  by (simp add: LRUKNode_RecordAccess_def)

lemma LRUKNode_RecordAccess_known:
  "history n \<noteq> [] \<Longrightarrow>
   LRUKNode_RecordAccess n t =
     Inr (n\<lparr>history := (if length (history n) = node_k n then tl (history n) else history n) @ [t]\<rparr>)"
  by (cases "history n") (auto simp: LRUKNode_RecordAccess_def)

lemma evictable_in_upd_other:
  "f \<notin> set xs \<Longrightarrow> filter (evictable_in (st(f := v))) xs = filter (evictable_in st) xs"
  by (rule filter_cong) (auto simp: evictable_in_def)

lemma evictable_in_same_flag:
  "st f = Some n \<Longrightarrow> is_evictable n' = is_evictable n \<Longrightarrow> evictable_in (st(f \<mapsto> n')) = evictable_in st"
  by (rule ext) (simp add: evictable_in_def)

lemma takeWhile_until:
  "f \<notin> set pre \<Longrightarrow> takeWhile (\<lambda>g. g \<noteq> f) (pre @ f # post) = pre"
  by (induction pre) auto

lemma dropWhile_until:
  "f \<notin> set pre \<Longrightarrow> dropWhile (\<lambda>g. g \<noteq> f) (pre @ f # post) = f # post"
  by (induction pre) auto

lemma split_at_frame:
  "distinct xs \<Longrightarrow> f \<in> set xs \<Longrightarrow>
     \<exists>pre post. xs = pre @ f # post \<and> f \<notin> set pre \<and> f \<notin> set post
       \<and> takeWhile (\<lambda>g. g \<noteq> f) xs = pre \<and> dropWhile (\<lambda>g. g \<noteq> f) xs = f # post
       \<and> remove1 f xs = pre @ post"
proof -
  assume d: "distinct xs" and "f \<in> set xs"
  then obtain pre post where s: "xs = pre @ f # post" by (meson split_list)
  with d have n: "f \<notin> set pre" "f \<notin> set post" by auto
  have "takeWhile (\<lambda>g. g \<noteq> f) xs = pre" using s n by (simp add: takeWhile_until)
  moreover have "dropWhile (\<lambda>g. g \<noteq> f) xs = f # post" using s n by (simp add: dropWhile_until)
  moreover have "remove1 f xs = pre @ post" using s n by (simp add: remove1_append)
  ultimately show ?thesis using s n by blast
qed

lemma tracked_bound:
  assumes "well_formed r"
  shows "length (lru_list r) \<le> unat (replacer_size r)"
proof -
  have sub: "set (lru_list r) \<subseteq> {0..<int (unat (replacer_size r))}"
  proof
    fix f assume "f \<in> set (lru_list r)"
    with assms obtain n where "node_store r f = Some n" by (auto simp: well_formed_def)
    with assms have "node_ok r f n" by (simp add: well_formed_def)
    then have "0 \<le> f" "nat f < unat (replacer_size r)" by (simp_all add: node_ok_def)
    then have "f < int (unat (replacer_size r))" by linarith
    then show "f \<in> {0..<int (unat (replacer_size r))}" using \<open>0 \<le> f\<close> by simp
  qed
  have "distinct (lru_list r)" using assms by (simp add: well_formed_def)
  then have "length (lru_list r) = card (set (lru_list r))"
    by (simp only: distinct_card)
  also have "\<dots> \<le> card {0..<int (unat (replacer_size r))}"
    by (rule card_mono) (use sub in auto)
  finally show ?thesis by simp
qed

lemma evictable_count_bound:
  assumes "well_formed r"
  shows "unat (curr_size r) \<le> unat (replacer_size r)"
proof -
  have "unat (curr_size r) \<le> length (lru_list r)"
    using assms by (simp add: well_formed_def)
  with tracked_bound [OF assms] show ?thesis by linarith
qed

lemma well_formed_new: "well_formed (LRUKReplacer_new N k)"
  by (simp add: well_formed_def LRUKReplacer_new_def)

lemma print_list_ok:
  "set (lru_list r) \<subseteq> dom (node_store r) \<Longrightarrow> print_list r = Inr r"
  by (auto simp: print_list_def list_all_iff)

lemma RecordAccess_new_frame:
  assumes wf: "well_formed r" and k: "0 < repl_k r"
    and f: "0 \<le> f" "nat f < unat (replacer_size r)" and new: "node_store r f = None"
  shows "\<exists>ys zs. lru_list r = ys @ zs
           \<and> scan_split (node_store r) \<lparr>history = [t], node_k = repl_k r, fid = f, is_evictable = False\<rparr> ys zs
           \<and> RecordAccess r f t =
               Inr (r\<lparr>node_store := (node_store r)(f \<mapsto>
                        \<lparr>history = [t], node_k = repl_k r, fid = f, is_evictable = False\<rparr>),
                      lru_list := ys @ f # zs\<rparr>)"
proof -
  let ?n = "\<lparr>history = [t], node_k = repl_k r, fid = f, is_evictable = False\<rparr>"
  have tracked: "\<forall>g\<in>set (lru_list r). \<exists>m. node_store r g = Some m \<and> history m \<noteq> []"
    using wf by (fastforce simp: well_formed_def node_ok_def)
  have "history ?n \<noteq> []" by simp
  from insert_scan_split [OF tracked this, of f] obtain ys zs where s:
    "lru_list r = ys @ zs" "insert_scan (node_store r) ?n f (lru_list r) = Inr (ys @ f # zs)"
    "scan_split (node_store r) ?n ys zs"
    unfolding scan_split_def by blast
  let ?r' = "r\<lparr>node_store := (node_store r)(f \<mapsto> ?n), lru_list := ys @ f # zs\<rparr>"
  have "set (lru_list ?r') \<subseteq> dom (node_store ?r')"
    using wf s(1) by (auto simp: well_formed_def)
  then have p: "print_list ?r' = Inr ?r'" by (rule print_list_ok)
  have "RecordAccess r f t = Inr ?r'"
    using f new k s(2) p by (simp add: RecordAccess_def LRUKNode_RecordAccess_new)
  with s(1,3) show ?thesis by blast
qed

lemma RecordAccess_known_frame:
  assumes wf: "well_formed r" and known: "node_store r f = Some n"
  shows "\<exists>pre ys zs. lru_list r = pre @ f # ys @ zs
           \<and> scan_split ((node_store r)(f \<mapsto> accessed n t)) (accessed n t) ys zs
           \<and> RecordAccess r f t =
               Inr (r\<lparr>node_store := (node_store r)(f \<mapsto> accessed n t),
                      lru_list := pre @ ys @ f # zs\<rparr>)"
proof -
  let ?n = "accessed n t" and ?st = "(node_store r)(f \<mapsto> accessed n t)"
  have ok: "node_ok r f n" using wf known by (simp add: well_formed_def)
  then have f: "0 \<le> f" "nat f < unat (replacer_size r)" and h: "history n \<noteq> []"
    by (simp_all add: node_ok_def)
  have rec: "LRUKNode_RecordAccess n t = Inr ?n"
    using LRUKNode_RecordAccess_known [OF h] by (simp add: accessed_def)
  have d: "distinct (lru_list r)" and mem: "f \<in> set (lru_list r)"
    using wf known by (auto simp: well_formed_def)
  from split_at_frame [OF d mem] obtain pre post where sp:
    "lru_list r = pre @ f # post" "f \<notin> set pre" "f \<notin> set post"
    "takeWhile (\<lambda>g. g \<noteq> f) (lru_list r) = pre" "dropWhile (\<lambda>g. g \<noteq> f) (lru_list r) = f # post"
    by blast
  have tracked: "\<forall>g\<in>set post. \<exists>m. ?st g = Some m \<and> history m \<noteq> []"
  proof
    fix g assume g: "g \<in> set post"
    then have "g \<in> dom (node_store r)" using wf sp(1) by (auto simp: well_formed_def)
    then obtain m where m: "node_store r g = Some m" by blast
    then have "node_ok r g m" using wf by (simp add: well_formed_def)
    moreover have "g \<noteq> f" using g sp(3) by blast
    ultimately show "\<exists>m. ?st g = Some m \<and> history m \<noteq> []"
      using m by (simp add: node_ok_def)
  qed
  have "history ?n \<noteq> []" by (simp add: accessed_def)
  from insert_scan_split [OF tracked this, of f] obtain ys zs where s:
    "post = ys @ zs" "insert_scan ?st ?n f post = Inr (ys @ f # zs)" "scan_split ?st ?n ys zs"
    unfolding scan_split_def by blast
  let ?r' = "r\<lparr>node_store := ?st, lru_list := pre @ ys @ f # zs\<rparr>"
  have "set (lru_list ?r') \<subseteq> dom (node_store ?r')"
    using wf sp(1) s(1) by (auto simp: well_formed_def)
  then have p: "print_list ?r' = Inr ?r'" by (rule print_list_ok)
  have "RecordAccess r f t = Inr ?r'"
    using f known rec mem sp(4,5) s(2) p by (simp add: RecordAccess_def)
  with sp(1) s(1,3) show ?thesis by auto
qed

lemma filter_insert_other:
  "f \<notin> set ys \<Longrightarrow> f \<notin> set zs \<Longrightarrow>
   filter (evictable_in (st(f := v))) (ys @ zs) = filter (evictable_in st) (ys @ zs)"
  using evictable_in_upd_other [of f "ys @ zs" st v] by simp

lemma RecordAccess_well_formed:
  assumes wf: "well_formed r" and k: "0 < repl_k r"
    and f: "0 \<le> f" "nat f < unat (replacer_size r)"
  shows "\<exists>r'. RecordAccess r f t = Inr r' \<and> well_formed r' \<and> curr_size r' = curr_size r
           \<and> replacer_size r' = replacer_size r \<and> repl_k r' = repl_k r"
proof (cases "node_store r f")
  case None
  let ?n = "\<lparr>history = [t], node_k = repl_k r, fid = f, is_evictable = False\<rparr>"
  from RecordAccess_new_frame [OF wf k f None, of t] obtain ys zs where s:
    "lru_list r = ys @ zs"
    "RecordAccess r f t = Inr (r\<lparr>node_store := (node_store r)(f \<mapsto> ?n), lru_list := ys @ f # zs\<rparr>)"
    by blast
  let ?r' = "r\<lparr>node_store := (node_store r)(f \<mapsto> ?n), lru_list := ys @ f # zs\<rparr>"
  have nf: "f \<notin> set ys" "f \<notin> set zs"
    using wf None s(1) by (auto simp: well_formed_def)
  have d: "distinct (lru_list ?r')" using wf s(1) nf by (auto simp: well_formed_def)
  have dm: "set (lru_list ?r') = dom (node_store ?r')"
    using wf s(1) by (auto simp: well_formed_def)
  have nd: "\<forall>g m. node_store ?r' g = Some m \<longrightarrow> node_ok ?r' g m"
    using wf k f by (auto simp: well_formed_def node_ok_def)
  have "\<not> evictable_in ((node_store r)(f \<mapsto> ?n)) f" by (simp add: evictable_in_def)
  then have "filter (evictable_in (node_store ?r')) (lru_list ?r')
      = filter (evictable_in ((node_store r)(f \<mapsto> ?n))) (ys @ zs)" by simp
  also have "\<dots> = filter (evictable_in (node_store r)) (ys @ zs)"
    using nf by (rule filter_insert_other)
  finally have "unat (curr_size ?r') = length (filter (evictable_in (node_store ?r')) (lru_list ?r'))"
    using wf s(1) by (simp add: well_formed_def)
  with d dm nd have "well_formed ?r'" unfolding well_formed_def by blast
  with s(2) show ?thesis by simp
next
  case (Some n)
  let ?n = "accessed n t"
  from RecordAccess_known_frame [OF wf Some, of t] obtain pre ys zs where s:
    "lru_list r = pre @ f # ys @ zs"
    "RecordAccess r f t = Inr (r\<lparr>node_store := (node_store r)(f \<mapsto> ?n), lru_list := pre @ ys @ f # zs\<rparr>)"
    by blast
  let ?r' = "r\<lparr>node_store := (node_store r)(f \<mapsto> ?n), lru_list := pre @ ys @ f # zs\<rparr>"
  have ok: "node_ok r f n" using wf Some by (simp add: well_formed_def)
  have d: "distinct (lru_list ?r')" using wf s(1) by (auto simp: well_formed_def)
  have dm: "set (lru_list ?r') = dom (node_store ?r')"
    using wf s(1) by (auto simp: well_formed_def)
  have "node_ok ?r' f ?n"
    using ok by (cases "history n") (auto simp: node_ok_def accessed_def)
  then have nd: "\<forall>g m. node_store ?r' g = Some m \<longrightarrow> node_ok ?r' g m"
    using wf by (auto simp: well_formed_def node_ok_def)
  have e: "evictable_in (node_store ?r') = evictable_in (node_store r)"
    using evictable_in_same_flag [of "node_store r" f n ?n] Some by (simp add: accessed_def)
  have "length (filter (evictable_in (node_store r)) (pre @ ys @ f # zs))
      = length (filter (evictable_in (node_store r)) (pre @ f # ys @ zs))" by simp
  then have "unat (curr_size ?r') = length (filter (evictable_in (node_store ?r')) (lru_list ?r'))"
    using wf s(1) e by (simp add: well_formed_def)
  with d dm nd have "well_formed ?r'" unfolding well_formed_def by blast
  with s(2) show ?thesis by simp
qed

lemma size_inc:
  fixes x N :: "64 word"
  assumes "unat x < unat N"
  shows "unat (x + 1) = unat x + 1"
proof -
  have "unat N < 2 ^ 64" using unsigned_less [of N] by simp
  with assms have "unat x + unat (1 :: 64 word) < 2 ^ LENGTH(64)" by simp
  then have "unat (x + 1) = unat x + unat (1 :: 64 word)" by (simp only: unat_add_lem)
  then show ?thesis by simp
qed

lemma size_dec:
  fixes x :: "64 word"
  assumes "0 < unat x"
  shows "unat (x - 1) = unat x - 1"
  using assms by (simp add: unat_minus_one unat_gt_0)

lemma evictable_in_flip:
  "g \<noteq> f \<Longrightarrow> evictable_in (st(f \<mapsto> n)) g = evictable_in st g"
  by (simp add: evictable_in_def)

lemma filter_flip_other:
  "f \<notin> set xs \<Longrightarrow> filter (evictable_in (st(f \<mapsto> n))) xs = filter (evictable_in st) xs"
  by (rule filter_cong) (auto simp: evictable_in_def)

lemma SetEvictable_well_formed:
  assumes wf: "well_formed r"
  shows "well_formed (SetEvictable r f b)
         \<and> int (unat (curr_size (SetEvictable r f b)))
             = int (unat (curr_size r)) + delta (effect_of r (OpSetEvictable f b))
         \<and> replacer_size (SetEvictable r f b) = replacer_size r
         \<and> repl_k (SetEvictable r f b) = repl_k r"
proof (cases "node_store r f")
  case None
  then show ?thesis using wf by (simp add: SetEvictable_def)
next
  case (Some n)
  show ?thesis
  proof (cases "is_evictable n = b")
    case True
    then show ?thesis using wf Some by (simp add: SetEvictable_def)
  next
    case False
    let ?n = "n\<lparr>is_evictable := b\<rparr>"
    let ?st = "(node_store r)(f \<mapsto> ?n)"
    have d: "distinct (lru_list r)" and mem: "f \<in> set (lru_list r)"
      using wf Some by (auto simp: well_formed_def)
    from split_at_frame [OF d mem] obtain pre post where sp:
      "lru_list r = pre @ f # post" "f \<notin> set pre" "f \<notin> set post" by blast
    have old: "unat (curr_size r)
        = length (filter (evictable_in (node_store r)) pre)
          + (if is_evictable n then 1 else 0)
          + length (filter (evictable_in (node_store r)) post)"
      using wf sp(1) Some by (simp add: well_formed_def evictable_in_def)
    have new: "length (filter (evictable_in ?st) (lru_list r))
        = length (filter (evictable_in (node_store r)) pre)
          + (if b then 1 else 0)
          + length (filter (evictable_in (node_store r)) post)"
      using sp by (simp add: filter_flip_other) (simp add: evictable_in_def)
    have bound: "length (filter (evictable_in ?st) (lru_list r)) \<le> unat (replacer_size r)"
      using tracked_bound [OF wf] length_filter_le [of "evictable_in ?st" "lru_list r"]
      by linarith
    have dm: "set (lru_list r) = dom ?st" using wf Some by (auto simp: well_formed_def)
    have nd: "\<forall>g m. ?st g = Some m \<longrightarrow> node_ok r g m"
      using wf Some by (auto simp: well_formed_def node_ok_def)
    show ?thesis
    proof (cases b)
      case True
      with False have ne: "\<not> is_evictable n" by simp
      have r': "SetEvictable r f b = r\<lparr>node_store := ?st, curr_size := curr_size r + 1\<rparr>"
        using Some ne True by (simp add: SetEvictable_def)
      have "unat (curr_size r) < unat (replacer_size r)"
        using old new bound ne True by simp
      then have sz: "unat (curr_size r + 1) = unat (curr_size r) + 1" by (rule size_inc)
      then have cnt: "unat (curr_size r + 1) = length (filter (evictable_in ?st) (lru_list r))"
        using old new ne True by simp
      have "well_formed (r\<lparr>node_store := ?st, curr_size := curr_size r + 1\<rparr>)"
        unfolding well_formed_def using d dm nd cnt by (simp add: node_ok_def)
      then show ?thesis using r' sz Some ne True by simp
    next
      case b: False
      with False have e: "is_evictable n" by simp
      have r': "SetEvictable r f b = r\<lparr>node_store := ?st, curr_size := curr_size r - 1\<rparr>"
        using Some e b by (simp add: SetEvictable_def)
      have "0 < unat (curr_size r)" using old e by simp
      then have sz: "unat (curr_size r - 1) = unat (curr_size r) - 1" by (rule size_dec)
      then have cnt: "unat (curr_size r - 1) = length (filter (evictable_in ?st) (lru_list r))"
        using old new e b by simp
      have "well_formed (r\<lparr>node_store := ?st, curr_size := curr_size r - 1\<rparr>)"
        unfolding well_formed_def using d dm nd cnt by (simp add: node_ok_def)
      then show ?thesis using r' sz Some e b \<open>0 < unat (curr_size r)\<close> by simp
    qed
  qed
qed

lemma Evict_none:
  assumes wf: "well_formed r" and none: "\<forall>g. \<not> evictable_in (node_store r) g"
  shows "Evict r = Inr (None, r)"
proof -
  have "filter (evictable_in (node_store r)) (lru_list r) = []"
    using none by (simp add: filter_empty_conv)
  then have "unat (curr_size r) = 0" using wf by (simp add: well_formed_def)
  then have "curr_size r = 0" by (simp add: unat_eq_0)
  then show ?thesis by (simp add: Evict_def)
qed

lemma Evict_some:
  assumes wf: "well_formed r" and some: "evictable_in (node_store r) g"
  shows "\<exists>f pre post. lru_list r = pre @ f # post
           \<and> (\<forall>h\<in>set pre. \<not> evictable_in (node_store r) h)
           \<and> evictable_in (node_store r) f
           \<and> 0 < unat (curr_size r)
           \<and> Evict r = Inr (Some f, r\<lparr>node_store := (node_store r)(f := None),
                                      lru_list := pre @ post,
                                      curr_size := curr_size r - 1\<rparr>)"
proof -
  let ?P = "\<lambda>h. \<not> evictable_in (node_store r) h"
  from some have "g \<in> dom (node_store r)" by (auto simp: evictable_in_def split: option.splits)
  then have g: "g \<in> set (lru_list r)" using wf by (simp add: well_formed_def)
  then have "g \<in> set (filter (evictable_in (node_store r)) (lru_list r))" using some by simp
  then have "0 < length (filter (evictable_in (node_store r)) (lru_list r))"
    by (simp only: length_pos_if_in_set)
  then have pos: "0 < unat (curr_size r)" using wf by (simp add: well_formed_def)
  then have nz: "curr_size r \<noteq> 0" by (simp add: unat_gt_0)
  have "dropWhile ?P (lru_list r) \<noteq> []" using g some by (auto simp: dropWhile_eq_Nil_conv)
  then obtain f post where dw: "dropWhile ?P (lru_list r) = f # post"
    by (cases "dropWhile ?P (lru_list r)") auto
  let ?pre = "takeWhile ?P (lru_list r)"
  have sp: "lru_list r = ?pre @ f # post"
    using takeWhile_dropWhile_id [of ?P "lru_list r"] dw by simp
  have pre: "\<forall>h\<in>set ?pre. ?P h" by (auto dest: set_takeWhileD)
  have ef: "evictable_in (node_store r) f" using hd_dropWhile [of ?P "lru_list r"] dw by simp
  have "set (lru_list r) \<subseteq> dom (node_store r)" using wf by (simp add: well_formed_def)
  then have "print_list r = Inr r" by (rule print_list_ok)
  then have "Evict r = Inr (Some f, r\<lparr>node_store := (node_store r)(f := None),
                                      lru_list := ?pre @ post,
                                      curr_size := curr_size r - 1\<rparr>)"
    using nz dw by (simp add: Evict_def)
  with sp pre ef pos show ?thesis by blast
qed

lemma erase_well_formed:
  assumes wf: "well_formed r" and sp: "lru_list r = pre @ f # post"
    and ef: "evictable_in (node_store r) f"
  shows "well_formed (r\<lparr>node_store := (node_store r)(f := None), lru_list := pre @ post,
                        curr_size := curr_size r - 1\<rparr>)
         \<and> int (unat (curr_size r - 1)) = int (unat (curr_size r)) - 1"
proof -
  let ?st = "(node_store r)(f := None)"
  have d: "distinct (lru_list r)" using wf by (simp add: well_formed_def)
  with sp have nf: "f \<notin> set pre" "f \<notin> set post" by auto
  have old: "unat (curr_size r)
      = length (filter (evictable_in (node_store r)) (pre @ post)) + 1"
    using wf sp ef by (simp add: well_formed_def)
  then have "0 < unat (curr_size r)" by simp
  then have sz: "unat (curr_size r - 1) = unat (curr_size r) - 1" by (rule size_dec)
  have "filter (evictable_in ?st) (pre @ post) = filter (evictable_in (node_store r)) (pre @ post)"
    using nf by (rule filter_insert_other)
  then have cnt: "unat (curr_size r - 1) = length (filter (evictable_in ?st) (pre @ post))"
    using sz old by simp
  have d': "distinct (pre @ post)" using d sp by simp
  have dm: "set (pre @ post) = dom ?st" using wf sp nf by (auto simp: well_formed_def)
  have nd: "\<forall>g m. ?st g = Some m \<longrightarrow> node_ok r g m"
    using wf by (auto simp: well_formed_def)
  have "well_formed (r\<lparr>node_store := ?st, lru_list := pre @ post, curr_size := curr_size r - 1\<rparr>)"
    unfolding well_formed_def using d' dm nd cnt by (simp add: node_ok_def)
  then show ?thesis using sz old by simp
qed

lemma Remove_tracked:
  assumes wf: "well_formed r" and n: "node_store r f = Some n" and e: "is_evictable n"
  shows "\<exists>pre post. lru_list r = pre @ f # post
           \<and> Remove r f = Inr (r\<lparr>node_store := (node_store r)(f := None),
                                  lru_list := pre @ post, curr_size := curr_size r - 1\<rparr>)"
proof -
  have d: "distinct (lru_list r)" and mem: "f \<in> set (lru_list r)"
    using wf n by (auto simp: well_formed_def)
  from split_at_frame [OF d mem] obtain pre post where sp:
    "lru_list r = pre @ f # post" "remove1 f (lru_list r) = pre @ post" by blast
  have "Remove r f = Inr (r\<lparr>node_store := (node_store r)(f := None),
                              lru_list := pre @ post, curr_size := curr_size r - 1\<rparr>)"
    using n e mem sp(2) by (simp add: Remove_def)
  with sp(1) show ?thesis by blast
qed

lemma step_well_formed:
  assumes wf: "well_formed r"
  shows "(\<exists>e. step r x = Inl e \<and> (0 < repl_k r \<longrightarrow> thrown e))
         \<or> (\<exists>r'. step r x = Inr r' \<and> well_formed r'
               \<and> int (unat (curr_size r')) = int (unat (curr_size r)) + delta (effect_of r x)
               \<and> replacer_size r' = replacer_size r \<and> repl_k r' = repl_k r)"
proof (cases x)
  case (OpRecordAccess f t)
  show ?thesis
  proof (cases "f < 0 \<or> unat (replacer_size r) \<le> nat f")
    case True
    then have "RecordAccess r f t = Inl OUT_OF_RANGE" by (rule RecordAccess_out_of_range)
    then show ?thesis using OpRecordAccess by simp
  next
    case False
    then have f: "0 \<le> f" "nat f < unat (replacer_size r)" by auto
    show ?thesis
    proof (cases "0 < repl_k r")
      case True
      from RecordAccess_well_formed [OF wf True f, of t] show ?thesis
        using OpRecordAccess by auto
    next
      case k0: False
      have "node_store r f = None"
      proof (cases "node_store r f")
        case (Some n)
        then have "node_ok r f n" using wf by (simp add: well_formed_def)
        then show ?thesis using k0 by (auto simp: node_ok_def)
      qed simp
      then have "RecordAccess r f t = Inl EmptyHistory"
        using False k0 by (simp add: RecordAccess_def LRUKNode_RecordAccess_def)
      then show ?thesis using OpRecordAccess k0 by simp
    qed
  qed
next
  case (OpSetEvictable f b)
  then show ?thesis using SetEvictable_well_formed [OF wf, of f b] by simp
next
  case OpEvict
  show ?thesis
  proof (cases "\<exists>g. evictable_in (node_store r) g")
    case True
    then obtain g where "evictable_in (node_store r) g" by blast
    from Evict_some [OF wf this] obtain f pre post where s:
      "lru_list r = pre @ f # post" "evictable_in (node_store r) f"
      "Evict r = Inr (Some f, r\<lparr>node_store := (node_store r)(f := None),
                                lru_list := pre @ post, curr_size := curr_size r - 1\<rparr>)"
      by blast
    from erase_well_formed [OF wf s(1,2)] s(3) show ?thesis using OpEvict by simp
  next
    case False
    then have "Evict r = Inr (None, r)" using Evict_none [OF wf] by blast
    then show ?thesis using OpEvict wf by simp
  qed
next
  case (OpRemove f)
  show ?thesis
  proof (cases "node_store r f")
    case None
    then have "Remove r f = Inr r" by (simp add: Remove_def)
    then show ?thesis using OpRemove None wf by simp
  next
    case (Some n)
    show ?thesis
    proof (cases "is_evictable n")
      case True
      from Remove_tracked [OF wf Some True] obtain pre post where s:
        "lru_list r = pre @ f # post"
        "Remove r f = Inr (r\<lparr>node_store := (node_store r)(f := None),
                             lru_list := pre @ post, curr_size := curr_size r - 1\<rparr>)"
        by blast
      have "evictable_in (node_store r) f" using Some True by (simp add: evictable_in_def)
      from erase_well_formed [OF wf s(1) this] s(2) show ?thesis using OpRemove Some by simp
    next
      case False
      then have "Remove r f = Inl InvalidState" using Some by (simp add: Remove_def)
      then show ?thesis using OpRemove by simp
    qed
  qed
qed


lemma step_failure_no_effect: "step r x = Inl e \<Longrightarrow> effect_of r x = NoEffect"
  by (cases x) (auto split: sum.splits prod.splits)

lemma run_well_formed:
  assumes "well_formed r"
  shows "(0 < repl_k r \<longrightarrow> (\<exists>r'. run r ops = Inr r'))
         \<and> (\<forall>r'. run r ops = Inr r' \<longrightarrow>
               well_formed r'
               \<and> int (unat (curr_size r'))
                   = int (unat (curr_size r)) + sum_list (map delta (effects r ops))
               \<and> replacer_size r' = replacer_size r \<and> repl_k r' = repl_k r)"
  using assms
proof (induction ops arbitrary: r)
  case Nil
  then show ?case by simp
next
  case (Cons x xs)
  from step_well_formed [OF Cons.prems, of x] show ?case
  proof
    assume "\<exists>e. step r x = Inl e \<and> (0 < repl_k r \<longrightarrow> thrown e)"
    then obtain e where e: "step r x = Inl e" "0 < repl_k r \<longrightarrow> thrown e" by auto
    have ne: "effect_of r x = NoEffect" using e(1) by (rule step_failure_no_effect)
    show ?thesis
    proof (cases "thrown e")
      case True
      then show ?thesis using Cons.IH [OF Cons.prems] e(1) ne by simp
    next
      case False
      then show ?thesis using e by simp
    qed
  next
    assume "\<exists>r'. step r x = Inr r' \<and> well_formed r'
               \<and> int (unat (curr_size r')) = int (unat (curr_size r)) + delta (effect_of r x)
               \<and> replacer_size r' = replacer_size r \<and> repl_k r' = repl_k r"
    then obtain r1 where r1: "step r x = Inr r1" "well_formed r1"
      "int (unat (curr_size r1)) = int (unat (curr_size r)) + delta (effect_of r x)"
      "replacer_size r1 = replacer_size r" "repl_k r1 = repl_k r" by blast
    from Cons.IH [OF r1(2)] r1(1,3,4,5) show ?thesis by simp
  qed
qed

lemma sum_delta_counts:
  "sum_list (map delta es)
     = int (count_list es BecameEvictable) - int (count_list es BecameNonEvictable)
       - int (count_list es Evicted) - int (count_list es Removed)"
proof (induction es)
  case Nil
  then show ?case by simp
next
  case (Cons e es)
  then show ?case by (cases e) simp_all
qed

text \<open>
  Claim C10. A replacer built with \<open>k \<ge> 1\<close> never runs into undefined behaviour, whatever
  the calls and the clock readings: every call returns or throws one of the two exceptions, so
  no \<open>front()\<close>, \<open>back()\<close> or \<open>pop_front()\<close> meets an empty history. With
  \<open>k = 0\<close> the first \<open>RecordAccess\<close> of a valid frame pops from the empty history of
  the new node.
\<close>

theorem history_never_empty:
  "(0 < k \<longrightarrow> (\<exists>r. run (LRUKReplacer_new N k) ops = Inr r)
                \<and> run (LRUKReplacer_new N k) ops \<noteq> Inl EmptyHistory)
   \<and> (0 \<le> f \<and> nat f < unat N \<longrightarrow>
        RecordAccess (LRUKReplacer_new N 0) f t = Inl EmptyHistory)"
proof -
  have "0 < k \<longrightarrow> (\<exists>r. run (LRUKReplacer_new N k) ops = Inr r)"
    using run_well_formed [OF well_formed_new, of N k ops] by (simp add: LRUKReplacer_new_def)
  moreover have "0 \<le> f \<and> nat f < unat N \<longrightarrow>
        RecordAccess (LRUKReplacer_new N 0) f t = Inl EmptyHistory"
    by (simp add: RecordAccess_def LRUKReplacer_new_def LRUKNode_RecordAccess_def)
  ultimately show ?thesis by auto
qed

theorem history_never_empty_witness:
  "(\<exists>r. run (LRUKReplacer_new 3 2) [OpRecordAccess 1 7, OpRecordAccess 1 7, OpRecordAccess 1 8,
                                     OpSetEvictable 1 True, OpEvict] = Inr r)
   \<and> RecordAccess (LRUKReplacer_new 3 0) 1 7 = Inl EmptyHistory"
  using history_never_empty [of 2 3 "[OpRecordAccess 1 7, OpRecordAccess 1 7, OpRecordAccess 1 8,
                                     OpSetEvictable 1 True, OpEvict]" 1 7]
  by simp

text \<open>
  Claim C6. After any sequence of calls on a replacer of capacity \<open>N\<close>, \<open>Size()\<close> is the
  number of \<open>SetEvictable(_, true)\<close> transitions minus the number of
  \<open>SetEvictable(_, false)\<close> transitions minus the successful evictions minus the successful
  removals; the difference is computed in the integers, so the counter never wrapped below
  zero, and it is at most \<open>N\<close>.
\<close>

theorem size_counts_evictable:
  assumes "run (LRUKReplacer_new N k) ops = Inr r"
  shows "int (unat (Size r))
           = int (count_list (effects (LRUKReplacer_new N k) ops) BecameEvictable)
             - int (count_list (effects (LRUKReplacer_new N k) ops) BecameNonEvictable)
             - int (count_list (effects (LRUKReplacer_new N k) ops) Evicted)
             - int (count_list (effects (LRUKReplacer_new N k) ops) Removed)
         \<and> unat (Size r) \<le> unat N"
proof -
  from run_well_formed [OF well_formed_new, of N k ops] assms
  have wf: "well_formed r"
    and sz: "int (unat (curr_size r))
              = int (unat (curr_size (LRUKReplacer_new N k)))
                + sum_list (map delta (effects (LRUKReplacer_new N k) ops))"
    and n: "replacer_size r = replacer_size (LRUKReplacer_new N k)"
    by blast+
  have "unat (curr_size r) \<le> unat N"
    using evictable_count_bound [OF wf] n by (simp add: LRUKReplacer_new_def)
  moreover have "unat (curr_size (LRUKReplacer_new N k)) = 0" by (simp add: LRUKReplacer_new_def)
  ultimately show ?thesis using sz by (simp add: Size_def sum_delta_counts)
qed


lemma effects_example:
  "effects (LRUKReplacer_new 3 2)
     [OpRecordAccess 1 7, OpSetEvictable 1 True, OpRecordAccess 2 7, OpSetEvictable 2 True,
      OpSetEvictable 2 False, OpEvict]
   = [NoEffect, BecameEvictable, NoEffect, BecameEvictable, BecameNonEvictable, Evicted]"
  by (simp add: LRUKReplacer_new_def RecordAccess_def LRUKNode_RecordAccess_def print_list_def
      SetEvictable_def Evict_def evictable_in_def node_less_def GetBackwardKDistance_def)

theorem size_counts_evictable_witness:
  "\<exists>r. run (LRUKReplacer_new 3 2)
         [OpRecordAccess 1 7, OpSetEvictable 1 True, OpRecordAccess 2 7, OpSetEvictable 2 True,
          OpSetEvictable 2 False, OpEvict] = Inr r
       \<and> unat (Size r) = 0"
proof -
  let ?ops = "[OpRecordAccess 1 7, OpSetEvictable 1 True, OpRecordAccess 2 7, OpSetEvictable 2 True,
          OpSetEvictable 2 False, OpEvict]"
  obtain r where r: "run (LRUKReplacer_new 3 2) ?ops = Inr r"
    using run_well_formed [OF well_formed_new, of 3 2 ?ops] by (auto simp: LRUKReplacer_new_def)
  let ?es = "[NoEffect, BecameEvictable, NoEffect, BecameEvictable, BecameNonEvictable, Evicted]"
  have "int (unat (Size r))
          = int (count_list ?es BecameEvictable) - int (count_list ?es BecameNonEvictable)
            - int (count_list ?es Evicted) - int (count_list ?es Removed)"
    using size_counts_evictable [OF r] unfolding effects_example by (rule conjunct1)
  also have "\<dots> = int 0" by simp
  finally have "unat (Size r) = 0" by (simp only: of_nat_eq_iff)
  with r show ?thesis by blast
qed

subsection \<open>The list is ordered by the key of the comparison\<close>

lemma node_less_rank:
  assumes "history a \<noteq> []" "history b \<noteq> []" "node_k a = node_k b"
    and "\<forall>x\<in>set (history b). 0 < x"
  shows "node_less a b = Inr (rank a < rank b)"
proof -
  obtain x xs where a: "history a = x # xs" using assms(1) by (cases "history a") auto
  obtain y ys where b: "history b = y # ys" using assms(2) by (cases "history b") auto
  have "0 < y" using assms(4) b by simp
  then show ?thesis
    using a b assms(3) by (auto simp: node_less_def GetBackwardKDistance_def rank_def)
qed

lemma history_ok_mono: "history_ok t n \<Longrightarrow> t \<le> t' \<Longrightarrow> history_ok t' n"
  by (fastforce simp: history_ok_def)

lemma accessed_history_ok:
  assumes "history_ok t n" "t \<le> now" "0 < now"
  shows "history_ok now (accessed n now)"
proof -
  let ?h = "if length (history n) = node_k n then tl (history n) else history n"
  have sub: "set ?h \<subseteq> set (history n)" by (cases "history n") auto
  have s: "sorted ?h" using assms(1) by (auto simp: history_ok_def sorted_tl)
  have b: "\<forall>x\<in>set ?h. 0 < x \<and> x \<le> now"
  proof
    fix x assume "x \<in> set ?h"
    then have "x \<in> set (history n)" using sub by blast
    then have "0 < x \<and> x \<le> t" using assms(1) by (simp add: history_ok_def)
    then show "0 < x \<and> x \<le> now" using assms(2) by simp
  qed
  have "history (accessed n now) = ?h @ [now]" by (simp add: accessed_def)
  moreover have "sorted (?h @ [now])" using s b by (simp add: sorted_append)
  moreover have "\<forall>x\<in>set (?h @ [now]). 0 < x \<and> x \<le> now" using b assms(3) by simp
  ultimately show ?thesis by (simp only: history_ok_def simp_thms)
qed

lemma accessed_rank_mono:
  assumes h: "history n \<noteq> []" and len: "length (history n) \<le> node_k n"
    and ok: "history_ok t n" and t: "t \<le> now"
  shows "rank n \<le> rank (accessed n now)"
proof (cases "length (history n) = node_k n")
  case True
  obtain x xs where n: "history n = x # xs" using h by (cases "history n") auto
  have "x \<le> hd (xs @ [now])"
  proof (cases xs)
    case Nil
    have "x \<le> t" using ok n by (simp add: history_ok_def)
    then show ?thesis using t Nil by simp
  next
    case (Cons y ys)
    have "sorted (x # y # ys)" using ok n Cons by (simp add: history_ok_def)
    then show ?thesis using Cons by simp
  qed
  moreover have "rank n = (1, x)" using True n by (simp add: rank_def)
  moreover have "rank (accessed n now) = (1, hd (xs @ [now]))"
    using True n by (simp add: rank_def accessed_def)
  ultimately show ?thesis by simp
next
  case False
  then have lt: "length (history n) < node_k n" using len by simp
  have "last (history n) \<in> set (history n)" using h by simp
  then have "last (history n) \<le> t" using ok by (simp add: history_ok_def)
  then have l: "last (history n) \<le> now" using t by simp
  have r: "rank n = (0, last (history n))" using lt by (simp add: rank_def)
  show ?thesis
  proof (cases "Suc (length (history n)) < node_k n")
    case True
    then have "rank (accessed n now) = (0, now)" using lt by (simp add: rank_def accessed_def)
    with r l show ?thesis by simp
  next
    case False
    then have "rank (accessed n now) = (1, hd (history n @ [now]))"
      using lt by (simp add: rank_def accessed_def)
    with r show ?thesis by simp
  qed
qed

lemma sorted_insert_key:
  fixes K :: "int \<Rightarrow> nat \<times> nat"
  assumes s: "sorted (map K (ys @ zs))" and le: "\<forall>g\<in>set ys. K g \<le> kf"
    and gt: "zs = [] \<or> kf \<le> K (hd zs)"
  shows "sorted (map K ys @ kf # map K zs)"
proof -
  have "\<forall>g\<in>set zs. kf \<le> K g"
  proof (cases zs)
    case Nil
    then show ?thesis by simp
  next
    case (Cons z zs')
    then have "kf \<le> K z" using gt by simp
    moreover have "\<forall>g\<in>set zs'. K z \<le> K g" using s Cons by (simp add: sorted_append)
    ultimately show ?thesis using Cons by auto
  qed
  then show ?thesis using s le by (auto simp: sorted_append)
qed

lemma rank_in_upd_other:
  "f \<notin> set xs \<Longrightarrow> map (rank_in (st(f := v))) xs = map (rank_in st) xs"
  by (rule map_cong) (auto simp: rank_in_def)

lemma comparable_store:
  "well_formed r \<Longrightarrow> ordered t r \<Longrightarrow> comparable (repl_k r) (node_store r)"
  by (simp add: comparable_def well_formed_def ordered_def node_ok_def history_ok_def)

lemma scan_rank:
  assumes c: "comparable (node_k n) st" and h: "history n \<noteq> []" and s: "scan_split st n ys zs"
  shows "(\<forall>g\<in>set ys. rank_in st g \<le> rank n) \<and> (zs = [] \<or> rank n \<le> rank_in st (hd zs))"
proof -
  have cmp: "node_less n m = Inr (rank n < rank m)" if "st g = Some m" for g m
  proof -
    from c that have "history m \<noteq> []" "node_k n = node_k m" "\<forall>x\<in>set (history m). 0 < x"
      by (simp_all add: comparable_def)
    with h show ?thesis by (simp add: node_less_rank)
  qed
  have a: "\<forall>g\<in>set ys. rank_in st g \<le> rank n"
  proof
    fix g assume "g \<in> set ys"
    with s obtain m where m: "st g = Some m" "node_less n m = Inr False"
      by (auto simp: scan_split_def)
    from cmp [OF m(1)] m(2) have "\<not> rank n < rank m" by simp
    then show "rank_in st g \<le> rank n" using m(1) by (simp add: rank_in_def)
  qed
  have b: "zs = [] \<or> rank n \<le> rank_in st (hd zs)"
  proof (cases "zs = []")
    case False
    with s obtain m where m: "st (hd zs) = Some m" "node_less n m = Inr True"
      by (auto simp: scan_split_def)
    from cmp [OF m(1)] m(2) have "rank n < rank m" by simp
    then have "rank n \<le> rank m" by (rule less_imp_le)
    then show ?thesis using m(1) by (simp add: rank_in_def)
  qed simp
  from a b show ?thesis by blast
qed

lemma RecordAccess_ordered_new:
  assumes wf: "well_formed r" and ord: "ordered t r" and k: "0 < repl_k r"
    and f: "0 \<le> f" "nat f < unat (replacer_size r)" and new: "node_store r f = None"
    and now: "t \<le> now" "0 < now" and res: "RecordAccess r f now = Inr r'"
  shows "ordered now r'"
proof -
  let ?n = "\<lparr>history = [now], node_k = repl_k r, fid = f, is_evictable = False\<rparr>"
  let ?K = "rank_in (node_store r)" and ?st = "(node_store r)(f \<mapsto> ?n)"
  from RecordAccess_new_frame [OF wf k f new, of now] res obtain ys zs where s:
    "lru_list r = ys @ zs" "scan_split (node_store r) ?n ys zs"
    "r' = r\<lparr>node_store := ?st, lru_list := ys @ f # zs\<rparr>"
    by auto
  have nf: "f \<notin> set ys" "f \<notin> set zs" using wf new s(1) by (auto simp: well_formed_def)
  have c: "comparable (node_k ?n) (node_store r)" using comparable_store [OF wf ord] by simp
  from scan_rank [OF c _ s(2)] have sc:
    "\<forall>g\<in>set ys. ?K g \<le> rank ?n" "zs = [] \<or> rank ?n \<le> ?K (hd zs)" by simp_all
  have old: "sorted (map ?K (ys @ zs))" using ord s(1) by (simp add: ordered_def)
  have e1: "map (rank_in ?st) ys = map ?K ys" using nf(1) by (rule rank_in_upd_other)
  have e2: "map (rank_in ?st) zs = map ?K zs" using nf(2) by (rule rank_in_upd_other)
  have e3: "rank_in ?st f = rank ?n" by (simp add: rank_in_def)
  have meq: "map (rank_in ?st) (ys @ f # zs) = map ?K ys @ rank ?n # map ?K zs"
    by (simp only: map_append list.map e1 e2 e3)
  have srt: "sorted (map (rank_in ?st) (ys @ f # zs))"
    unfolding meq using old sc by (rule sorted_insert_key)
  have hs: "\<forall>g m. ?st g = Some m \<longrightarrow> history_ok now m"
  proof (intro allI impI)
    fix g m assume gm: "?st g = Some m"
    show "history_ok now m"
    proof (cases "g = f")
      case True
      then have "m = ?n" using gm by simp
      then show ?thesis using now(2) by (simp add: history_ok_def)
    next
      case False
      then have "node_store r g = Some m" using gm by simp
      then have "history_ok t m" using ord by (simp add: ordered_def)
      then show ?thesis using now(1) by (rule history_ok_mono)
    qed
  qed
  show ?thesis unfolding ordered_def s(3) using hs srt by simp
qed

lemma RecordAccess_ordered_known:
  assumes wf: "well_formed r" and ord: "ordered t r" and known: "node_store r f = Some n"
    and now: "t \<le> now" "0 < now" and res: "RecordAccess r f now = Inr r'"
  shows "ordered now r'"
proof -
  let ?n = "accessed n now"
  let ?K = "rank_in (node_store r)" and ?st = "(node_store r)(f \<mapsto> ?n)"
  from RecordAccess_known_frame [OF wf known, of now] res obtain pre ys zs where s:
    "lru_list r = pre @ f # ys @ zs" "scan_split ?st ?n ys zs"
    "r' = r\<lparr>node_store := ?st, lru_list := pre @ ys @ f # zs\<rparr>"
    by auto
  have d: "distinct (lru_list r)" using wf by (simp add: well_formed_def)
  with s(1) have nf: "f \<notin> set pre" "f \<notin> set ys" "f \<notin> set zs" by auto
  have okn: "node_ok r f n" using wf known by (simp add: well_formed_def)
  have hn: "history_ok t n" using ord known by (simp add: ordered_def)
  have hn': "history_ok now ?n" using hn now by (rule accessed_history_ok)
  have hs: "\<forall>g m. ?st g = Some m \<longrightarrow> history_ok now m"
  proof (intro allI impI)
    fix g m assume gm: "?st g = Some m"
    show "history_ok now m"
    proof (cases "g = f")
      case True
      then show ?thesis using gm hn' by simp
    next
      case False
      then have "node_store r g = Some m" using gm by simp
      then have "history_ok t m" using ord by (simp add: ordered_def)
      then show ?thesis using now(1) by (rule history_ok_mono)
    qed
  qed
  have kn: "node_k ?n = repl_k r" using okn by (simp add: node_ok_def accessed_def)
  have c0: "comparable (repl_k r) (node_store r)" by (rule comparable_store [OF wf ord])
  have c: "comparable (node_k ?n) ?st"
    unfolding kn comparable_def
  proof (intro allI impI)
    fix g m assume gm: "?st g = Some m"
    show "history m \<noteq> [] \<and> node_k m = repl_k r \<and> (\<forall>x\<in>set (history m). 0 < x)"
    proof (cases "g = f")
      case True
      then have "m = ?n" using gm by simp
      then show ?thesis using kn hn' by (simp add: history_ok_def) (simp add: accessed_def)
    next
      case False
      then have "node_store r g = Some m" using gm by simp
      then show ?thesis using c0 by (simp add: comparable_def)
    qed
  qed
  have "history ?n \<noteq> []" by (simp add: accessed_def)
  from scan_rank [OF c this s(2)] have sc0:
    "\<forall>g\<in>set ys. rank_in ?st g \<le> rank ?n" "zs = [] \<or> rank ?n \<le> rank_in ?st (hd zs)"
    by simp_all
  have same: "rank_in ?st g = ?K g" if "g \<noteq> f" for g using that by (simp add: rank_in_def)
  have sc: "\<forall>g\<in>set ys. ?K g \<le> rank ?n" "zs = [] \<or> rank ?n \<le> ?K (hd zs)"
  proof -
    show "\<forall>g\<in>set ys. ?K g \<le> rank ?n" using sc0(1) nf(2) same by fastforce
    show "zs = [] \<or> rank ?n \<le> ?K (hd zs)"
    proof (cases "zs = []")
      case False
      then have "hd zs \<in> set zs" by simp
      then have "hd zs \<noteq> f" using nf(3) by blast
      then show ?thesis using sc0(2) False same by simp
    qed simp
  qed
  have old: "sorted (map ?K (pre @ f # ys @ zs))" using ord s(1) by (simp add: ordered_def)
  then have old2: "sorted (map ?K (ys @ zs))" by (simp add: sorted_append)
  have mid: "sorted (map ?K ys @ rank ?n # map ?K zs)" using old2 sc by (rule sorted_insert_key)
  have grow: "?K f \<le> rank ?n"
    using accessed_rank_mono [of n t now] okn hn now(1) known
    by (simp add: node_ok_def rank_in_def)
  have cross: "\<forall>p\<in>set pre. ?K p \<le> ?K f \<and> (\<forall>q\<in>set ys \<union> set zs. ?K p \<le> ?K q)"
    using old by (auto simp: sorted_append)
  have pres: "sorted (map ?K pre)" using old by (simp add: sorted_append)
  have "sorted (map ?K pre @ (map ?K ys @ rank ?n # map ?K zs))"
    unfolding sorted_append [of "map ?K pre"]
  proof (intro conjI ballI)
    show "sorted (map ?K pre)" by (rule pres)
    show "sorted (map ?K ys @ rank ?n # map ?K zs)" by (rule mid)
    fix x y assume "x \<in> set (map ?K pre)" "y \<in> set (map ?K ys @ rank ?n # map ?K zs)"
    then obtain p where p: "p \<in> set pre" "x = ?K p" by auto
    from \<open>y \<in> set (map ?K ys @ rank ?n # map ?K zs)\<close>
    have "y = rank ?n \<or> (\<exists>q\<in>set ys \<union> set zs. y = ?K q)" by auto
    then show "x \<le> y"
    proof
      assume "y = rank ?n"
      moreover have "?K p \<le> ?K f" using cross p(1) by blast
      ultimately show ?thesis using grow p(2) by simp
    next
      assume "\<exists>q\<in>set ys \<union> set zs. y = ?K q"
      then show ?thesis using cross p by blast
    qed
  qed
  moreover have e0: "map (rank_in ?st) pre = map ?K pre" using nf(1) by (rule rank_in_upd_other)
  moreover have e1: "map (rank_in ?st) ys = map ?K ys" using nf(2) by (rule rank_in_upd_other)
  moreover have e2: "map (rank_in ?st) zs = map ?K zs" using nf(3) by (rule rank_in_upd_other)
  moreover have e3: "rank_in ?st f = rank ?n" by (simp add: rank_in_def)
  ultimately have srt: "sorted (map (rank_in ?st) (pre @ ys @ f # zs))"
    by (simp only: map_append list.map)
  show ?thesis unfolding ordered_def s(3) using hs srt by simp
qed

lemma RecordAccess_no_k:
  assumes wf: "well_formed r" and k0: "repl_k r = 0"
  shows "\<exists>e. RecordAccess r f t = Inl e"
proof (cases "f < 0 \<or> unat (replacer_size r) \<le> nat f")
  case True
  then show ?thesis by (simp add: RecordAccess_def)
next
  case False
  have "node_store r f = None"
  proof (cases "node_store r f")
    case (Some n)
    then have "node_ok r f n" using wf by (simp add: well_formed_def)
    then show ?thesis using k0 by (auto simp: node_ok_def)
  qed simp
  then show ?thesis using False k0 by (simp add: RecordAccess_def LRUKNode_RecordAccess_def)
qed

lemma rank_in_same_history:
  "st f = Some n \<Longrightarrow> history n' = history n \<Longrightarrow> node_k n' = node_k n \<Longrightarrow>
   rank_in (st(f \<mapsto> n')) = rank_in st"
  by (rule ext) (simp add: rank_in_def rank_def)

lemma SetEvictable_ordered:
  assumes "ordered t r"
  shows "ordered t (SetEvictable r f b)"
proof (cases "node_store r f")
  case None
  then show ?thesis using assms by (simp add: SetEvictable_def)
next
  case (Some n)
  let ?n = "n\<lparr>is_evictable := b\<rparr>"
  have "history_ok t n" using assms Some by (simp add: ordered_def)
  then have hn: "history_ok t ?n" by (simp add: history_ok_def)
  have rk: "rank_in ((node_store r)(f \<mapsto> ?n)) = rank_in (node_store r)"
    using Some by (simp add: rank_in_same_history)
  have "ordered t (r\<lparr>node_store := (node_store r)(f \<mapsto> ?n), curr_size := c\<rparr>)" for c
    using assms hn rk by (simp add: ordered_def)
  then show ?thesis using Some assms by (cases b) (simp_all add: SetEvictable_def)
qed

lemma erase_ordered:
  assumes ord: "ordered t r" and sp: "lru_list r = pre @ f # post"
    and nf: "f \<notin> set pre" "f \<notin> set post"
  shows "ordered t (r\<lparr>node_store := (node_store r)(f := None), lru_list := pre @ post,
                       curr_size := c\<rparr>)"
proof -
  have "sorted (map (rank_in (node_store r)) (pre @ f # post))"
    using ord sp by (simp add: ordered_def)
  then have "sorted (map (rank_in (node_store r)) (pre @ post))"
    by (auto simp: sorted_append)
  moreover have "f \<notin> set (pre @ post)" using nf by simp
  then have "map (rank_in ((node_store r)(f := None))) (pre @ post)
      = map (rank_in (node_store r)) (pre @ post)"
    by (rule rank_in_upd_other)
  ultimately have "sorted (map (rank_in ((node_store r)(f := None))) (pre @ post))"
    by (simp only:)
  then show ?thesis using ord by (simp add: ordered_def)
qed

lemma step_ordered:
  assumes wf: "well_formed r" and ord: "ordered t r" and c: "clock_ok t [x]"
    and res: "step r x = Inr r'"
  shows "ordered (clock_end t [x]) r'"
proof (cases x)
  case (OpRecordAccess f now)
  then have now: "t \<le> now" "0 < now" and ra: "RecordAccess r f now = Inr r'"
    using c res by simp_all
  have k: "0 < repl_k r" using RecordAccess_no_k [OF wf, of f now] ra by (cases "repl_k r") auto
  have "\<not> (f < 0 \<or> unat (replacer_size r) \<le> nat f)"
    using ra RecordAccess_out_of_range [of f r now] by auto
  then have f: "0 \<le> f" "nat f < unat (replacer_size r)" by simp_all
  have "ordered now r'"
  proof (cases "node_store r f")
    case None
    from RecordAccess_ordered_new [OF wf ord k f None now ra] show ?thesis .
  next
    case (Some n)
    from RecordAccess_ordered_known [OF wf ord Some now ra] show ?thesis .
  qed
  then show ?thesis using OpRecordAccess by simp
next
  case (OpSetEvictable f b)
  then show ?thesis using res SetEvictable_ordered [OF ord, of f b] by auto
next
  case OpEvict
  show ?thesis
  proof (cases "\<exists>g. evictable_in (node_store r) g")
    case True
    then obtain g where "evictable_in (node_store r) g" by blast
    from Evict_some [OF wf this] obtain f pre post where s:
      "lru_list r = pre @ f # post"
      "Evict r = Inr (Some f, r\<lparr>node_store := (node_store r)(f := None),
                                lru_list := pre @ post, curr_size := curr_size r - 1\<rparr>)"
      by blast
    have "distinct (lru_list r)" using wf by (simp add: well_formed_def)
    with s(1) have "f \<notin> set pre" "f \<notin> set post" by auto
    from erase_ordered [OF ord s(1) this, of "curr_size r - 1"] s(2) res OpEvict
    show ?thesis by auto
  next
    case False
    then have "Evict r = Inr (None, r)" using Evict_none [OF wf] by blast
    then show ?thesis using OpEvict res ord by simp
  qed
next
  case (OpRemove f)
  show ?thesis
  proof (cases "node_store r f")
    case None
    then have "Remove r f = Inr r" by (simp add: Remove_def)
    then show ?thesis using OpRemove res ord by simp
  next
    case (Some n)
    then have e: "is_evictable n" using res OpRemove by (auto simp: Remove_def split: if_splits)
    from Remove_tracked [OF wf Some e] obtain pre post where s:
      "lru_list r = pre @ f # post"
      "Remove r f = Inr (r\<lparr>node_store := (node_store r)(f := None),
                           lru_list := pre @ post, curr_size := curr_size r - 1\<rparr>)"
      by blast
    have "distinct (lru_list r)" using wf by (simp add: well_formed_def)
    with s(1) have "f \<notin> set pre" "f \<notin> set post" by auto
    from erase_ordered [OF ord s(1) this, of "curr_size r - 1"] s(2) res OpRemove
    show ?thesis by auto
  qed
qed

lemma clock_step:
  "clock_ok t (x # xs) \<longleftrightarrow> clock_ok t [x] \<and> clock_ok (clock_end t [x]) xs"
  by (cases x) auto

lemma clock_end_step: "clock_end t (x # xs) = clock_end (clock_end t [x]) xs"
  by (cases x) auto

lemma step_failure_clock:
  "step r x = Inl e \<Longrightarrow> thrown e \<Longrightarrow> ordered t r \<Longrightarrow> clock_ok t [x] \<Longrightarrow>
   ordered (clock_end t [x]) r"
proof (cases x)
  case (OpRecordAccess f now)
  assume "ordered t r" "clock_ok t [x]"
  then have "\<forall>g n. node_store r g = Some n \<longrightarrow> history_ok now n"
    using OpRecordAccess by (auto simp: ordered_def intro: history_ok_mono)
  then show ?thesis using \<open>ordered t r\<close> OpRecordAccess by (simp add: ordered_def)
qed auto

lemma run_ordered:
  assumes "well_formed r" "ordered t r" "clock_ok t ops" "run r ops = Inr r'"
  shows "well_formed r' \<and> ordered (clock_end t ops) r'"
  using assms
proof (induction ops arbitrary: r t)
  case Nil
  then show ?case by simp
next
  case (Cons x xs)
  from Cons.prems(3) have c: "clock_ok t [x]" "clock_ok (clock_end t [x]) xs"
    by (simp_all add: clock_step [of t x xs])
  show ?case
  proof (cases "step r x")
    case (Inl e)
    with Cons.prems(4) have th: "thrown e" and rest: "run r xs = Inr r'"
      by (auto split: if_splits)
    from step_failure_clock [OF Inl th Cons.prems(2) c(1)]
    have "ordered (clock_end t [x]) r" .
    from Cons.IH [OF Cons.prems(1) this c(2) rest] show ?thesis
      by (simp add: clock_end_step [of t x xs])
  next
    case (Inr r1)
    with Cons.prems(4) have rest: "run r1 xs = Inr r'" by simp
    from step_well_formed [OF Cons.prems(1), of x] Inr have wf1: "well_formed r1" by auto
    from step_ordered [OF Cons.prems(1,2) c(1) Inr] have "ordered (clock_end t [x]) r1" .
    from Cons.IH [OF wf1 this c(2) rest] show ?thesis
      by (simp add: clock_end_step [of t x xs])
  qed
qed

lemma ordered_new: "ordered 0 (LRUKReplacer_new N k)"
  by (simp add: ordered_def LRUKReplacer_new_def)

lemma rank_le_victim_before:
  assumes ha: "history a \<noteq> []" and hb: "history b \<noteq> []" and k: "node_k a = node_k b"
    and ob: "history_ok now b" and le: "rank a \<le> rank b"
  shows "victim_before now a b"
proof (cases "length (history a) < node_k a")
  case a: True
  show ?thesis
  proof (cases "length (history b) < node_k b")
    case True
    then show ?thesis using a le by (simp add: victim_before_def backward_k_distance_def rank_def)
  next
    case False
    then show ?thesis using a by (simp add: victim_before_def backward_k_distance_def)
  qed
next
  case a: False
  show ?thesis
  proof (cases "length (history b) < node_k b")
    case True
    then show ?thesis using a le by (simp add: rank_def)
  next
    case False
    then have le': "hd (history a) \<le> hd (history b)" using a le by (simp add: rank_def)
    have "hd (history b) \<in> set (history b)" using hb by simp
    then have "hd (history b) \<le> now" using ob by (simp add: history_ok_def)
    then have "now - hd (history b) < now - hd (history a)
               \<or> now - hd (history a) = now - hd (history b)"
      using le' by linarith
    then show ?thesis using a False le'
      by (auto simp: victim_before_def backward_k_distance_def)
  qed
qed

text \<open>
  What \<open>Evict\<close> does guarantee, in terms of the timestamps the nodes store: in every state
  a fresh replacer reaches by calls whose clock readings are positive and never go back, if
  some frame is evictable then \<open>Evict\<close> returns an evictable frame, erases it, and no
  evictable frame precedes it in the order of the stored timestamps. Accesses that fall into
  the same second store the same timestamp, so this says nothing about their order.
\<close>

lemma Evict_first_in_stored_order:
  assumes run: "run (LRUKReplacer_new N k) ops = Inr r"
    and clock: "clock_ok 0 ops" "clock_end 0 ops \<le> now"
    and some: "evictable_in (node_store r) g"
  shows "\<exists>f nf r'. Evict r = Inr (Some f, r')
           \<and> node_store r f = Some nf \<and> is_evictable nf \<and> node_store r' f = None
           \<and> (\<forall>h nh. node_store r h = Some nh \<and> is_evictable nh \<longrightarrow> victim_before now nf nh)"
proof -
  let ?K = "rank_in (node_store r)"
  from run_ordered [OF well_formed_new ordered_new clock(1) run]
  have wf: "well_formed r" and ord: "ordered (clock_end 0 ops) r" by simp_all
  from Evict_some [OF wf some] obtain f pre post where s:
    "lru_list r = pre @ f # post" "\<forall>h\<in>set pre. \<not> evictable_in (node_store r) h"
    "evictable_in (node_store r) f"
    "Evict r = Inr (Some f, r\<lparr>node_store := (node_store r)(f := None),
                              lru_list := pre @ post, curr_size := curr_size r - 1\<rparr>)"
    by blast
  from s(3) obtain nf where nf: "node_store r f = Some nf" "is_evictable nf"
    by (auto simp: evictable_in_def split: option.splits)
  have srt: "sorted (map ?K (pre @ f # post))" using ord s(1) by (simp add: ordered_def)
  have best: "victim_before now nf nh" if h: "node_store r h = Some nh" "is_evictable nh" for h nh
  proof -
    have "h \<in> set (lru_list r)" using wf h(1) by (auto simp: well_formed_def)
    moreover have "h \<notin> set pre" using s(2) h by (auto simp: evictable_in_def)
    ultimately have "h = f \<or> h \<in> set post" using s(1) by simp
    then have "?K f \<le> ?K h" using srt by (auto simp: sorted_append)
    then have le: "rank nf \<le> rank nh" using nf(1) h(1) by (simp add: rank_in_def)
    have "node_ok r f nf" "node_ok r h nh" using wf nf(1) h(1) by (simp_all add: well_formed_def)
    then have a: "history nf \<noteq> []" "history nh \<noteq> []" "node_k nf = node_k nh"
      by (simp_all add: node_ok_def)
    have "history_ok (clock_end 0 ops) nh" using ord h(1) by (simp add: ordered_def)
    then have "history_ok now nh" using clock(2) by (rule history_ok_mono)
    from rank_le_victim_before [OF a this le] show ?thesis .
  qed
  show ?thesis using s(4) nf best by auto
qed

text \<open>
  Claim C1. \<open>Evict\<close> does not always return the evictable frame with the largest backward
  K-distance. With \<open>k = 2\<close>, frames 0, 1, 1, 0 are accessed in this order within one
  second of the wall clock (reading 5) and both are made evictable. Frame 0 has the older
  second-last access, hence the larger distance, and the code itself returns frame 0 when the
  same calls are stamped by a counter. With the readings of the clock every stored timestamp
  is 5, frame 0 is re-inserted behind frame 1, and \<open>Evict\<close> returns frame 1.
\<close>

theorem evict_same_second_failing_input:
  "run (LRUKReplacer_new 3 2)
     [OpRecordAccess 0 5, OpRecordAccess 1 5, OpRecordAccess 1 5, OpRecordAccess 0 5,
      OpSetEvictable 0 True, OpSetEvictable 1 True]
   = Inr \<lparr>node_store =
            [0 \<mapsto> \<lparr>history = [5, 5], node_k = 2, fid = 0, is_evictable = True\<rparr>,
             1 \<mapsto> \<lparr>history = [5, 5], node_k = 2, fid = 1, is_evictable = True\<rparr>],
          lru_list = [1, 0], current_timestamp = 0, curr_size = 2, replacer_size = 3,
          repl_k = 2\<rparr>
   \<and> map_sum id fst
        (Evict \<lparr>node_store =
            [0 \<mapsto> \<lparr>history = [5, 5], node_k = 2, fid = 0, is_evictable = True\<rparr>,
             1 \<mapsto> \<lparr>history = [5, 5], node_k = 2, fid = 1, is_evictable = True\<rparr>],
          lru_list = [1, 0], current_timestamp = 0, curr_size = 2, replacer_size = 3,
          repl_k = 2\<rparr>) = Inr (Some 1)
   \<and> counter_stamped 0
        [OpRecordAccess 0 5, OpRecordAccess 1 5, OpRecordAccess 1 5, OpRecordAccess 0 5,
         OpSetEvictable 0 True, OpSetEvictable 1 True]
       = [OpRecordAccess 0 1, OpRecordAccess 1 2, OpRecordAccess 1 3, OpRecordAccess 0 4,
          OpSetEvictable 0 True, OpSetEvictable 1 True]
   \<and> run (LRUKReplacer_new 3 2)
        [OpRecordAccess 0 1, OpRecordAccess 1 2, OpRecordAccess 1 3, OpRecordAccess 0 4,
         OpSetEvictable 0 True, OpSetEvictable 1 True]
       = Inr \<lparr>node_store =
            [0 \<mapsto> \<lparr>history = [1, 4], node_k = 2, fid = 0, is_evictable = True\<rparr>,
             1 \<mapsto> \<lparr>history = [2, 3], node_k = 2, fid = 1, is_evictable = True\<rparr>],
          lru_list = [0, 1], current_timestamp = 0, curr_size = 2, replacer_size = 3,
          repl_k = 2\<rparr>
   \<and> map_sum id fst
        (Evict \<lparr>node_store =
            [0 \<mapsto> \<lparr>history = [1, 4], node_k = 2, fid = 0, is_evictable = True\<rparr>,
             1 \<mapsto> \<lparr>history = [2, 3], node_k = 2, fid = 1, is_evictable = True\<rparr>],
          lru_list = [0, 1], current_timestamp = 0, curr_size = 2, replacer_size = 3,
          repl_k = 2\<rparr>) = Inr (Some 0)
   \<and> backward_k_distance 4 \<lparr>history = [2, 3], node_k = 2, fid = 1, is_evictable = True\<rparr>
       < backward_k_distance 4 \<lparr>history = [1, 4], node_k = 2, fid = 0, is_evictable = True\<rparr>"
proof (intro conjI)
  show "run (LRUKReplacer_new 3 2)
     [OpRecordAccess 0 5, OpRecordAccess 1 5, OpRecordAccess 1 5, OpRecordAccess 0 5,
      OpSetEvictable 0 True, OpSetEvictable 1 True]
   = Inr \<lparr>node_store =
            [0 \<mapsto> \<lparr>history = [5, 5], node_k = 2, fid = 0, is_evictable = True\<rparr>,
             1 \<mapsto> \<lparr>history = [5, 5], node_k = 2, fid = 1, is_evictable = True\<rparr>],
          lru_list = [1, 0], current_timestamp = 0, curr_size = 2, replacer_size = 3,
          repl_k = 2\<rparr>"
    by (auto simp: LRUKReplacer_new_def RecordAccess_def LRUKNode_RecordAccess_def print_list_def
        SetEvictable_def node_less_def GetBackwardKDistance_def fun_eq_iff)
  show "run (LRUKReplacer_new 3 2)
        [OpRecordAccess 0 1, OpRecordAccess 1 2, OpRecordAccess 1 3, OpRecordAccess 0 4,
         OpSetEvictable 0 True, OpSetEvictable 1 True]
       = Inr \<lparr>node_store =
            [0 \<mapsto> \<lparr>history = [1, 4], node_k = 2, fid = 0, is_evictable = True\<rparr>,
             1 \<mapsto> \<lparr>history = [2, 3], node_k = 2, fid = 1, is_evictable = True\<rparr>],
          lru_list = [0, 1], current_timestamp = 0, curr_size = 2, replacer_size = 3,
          repl_k = 2\<rparr>"
    by (auto simp: LRUKReplacer_new_def RecordAccess_def LRUKNode_RecordAccess_def print_list_def
        SetEvictable_def node_less_def GetBackwardKDistance_def fun_eq_iff)
qed (simp_all add: Evict_def print_list_def evictable_in_def backward_k_distance_def)

subsection \<open>Timestamps\<close>

lemma run_append:
  "run r (xs @ ys) = (case run r xs of Inl e \<Rightarrow> Inl e | Inr r' \<Rightarrow> run r' ys)"
  by (induction xs arbitrary: r) (auto split: sum.splits)

lemma clock_ok_append:
  "clock_ok t (xs @ ys) \<longleftrightarrow> clock_ok t xs \<and> clock_ok (clock_end t xs) ys"
  by (induction t xs rule: clock_ok.induct) auto

lemma clock_end_append: "clock_end t (xs @ ys) = clock_end (clock_end t xs) ys"
  by (induction t xs rule: clock_end.induct) auto

lemma RecordAccess_records:
  assumes wf: "well_formed r" and res: "RecordAccess r f t = Inr r'"
  shows "\<exists>n. node_store r' f = Some n \<and> history n \<noteq> [] \<and> last (history n) = t"
proof -
  have k: "0 < repl_k r" using RecordAccess_no_k [OF wf, of f t] res by (cases "repl_k r") auto
  have "\<not> (f < 0 \<or> unat (replacer_size r) \<le> nat f)"
    using res RecordAccess_out_of_range [of f r t] by auto
  then have f: "0 \<le> f" "nat f < unat (replacer_size r)" by simp_all
  show ?thesis
  proof (cases "node_store r f")
    case None
    from RecordAccess_new_frame [OF wf k f None, of t] res show ?thesis by auto
  next
    case (Some n)
    from RecordAccess_known_frame [OF wf Some, of t] res show ?thesis
      by (auto simp: accessed_def)
  qed
qed

text \<open>
  Claim C2, as the code has it. The timestamp a \<open>RecordAccess\<close> call stores is the clock
  reading it took, whatever earlier calls stored. If no reading so far was smaller than the one
  before it, then no timestamp in the replacer is larger than the one just stored: later calls
  record timestamps that are at least as large, not strictly larger.
\<close>

theorem record_access_stores_clock_reading:
  assumes run: "run (LRUKReplacer_new N k) ops = Inr r"
    and res: "RecordAccess r f t = Inr r'"
  shows "(\<exists>n. node_store r' f = Some n \<and> history n \<noteq> [] \<and> last (history n) = t)
         \<and> (clock_ok 0 (ops @ [OpRecordAccess f t]) \<longrightarrow>
              (\<forall>g m. node_store r' g = Some m \<longrightarrow> (\<forall>x\<in>set (history m). x \<le> t)))"
proof -
  from run_well_formed [OF well_formed_new, of N k ops] run have wf: "well_formed r" by blast
  have a: "\<exists>n. node_store r' f = Some n \<and> history n \<noteq> [] \<and> last (history n) = t"
    using wf res by (rule RecordAccess_records)
  have b: "\<forall>g m. node_store r' g = Some m \<longrightarrow> (\<forall>x\<in>set (history m). x \<le> t)"
    if c: "clock_ok 0 (ops @ [OpRecordAccess f t])"
  proof -
    have r': "run (LRUKReplacer_new N k) (ops @ [OpRecordAccess f t]) = Inr r'"
      using run res by (simp add: run_append)
    from run_ordered [OF well_formed_new ordered_new c r']
    have "ordered (clock_end 0 (ops @ [OpRecordAccess f t])) r'" by simp
    then have "ordered t r'" by (simp add: clock_end_append)
    then show ?thesis by (simp add: ordered_def history_ok_def)
  qed
  from a b show ?thesis by blast
qed

lemma run_same_second:
  "run (LRUKReplacer_new 3 2) [OpRecordAccess 1 5]
   = Inr \<lparr>node_store = [1 \<mapsto> \<lparr>history = [5], node_k = 2, fid = 1, is_evictable = False\<rparr>],
          lru_list = [1], current_timestamp = 0, curr_size = 0, replacer_size = 3,
          repl_k = 2\<rparr>"
  by (auto simp: LRUKReplacer_new_def RecordAccess_def LRUKNode_RecordAccess_def print_list_def
      fun_eq_iff)

lemma RecordAccess_same_second:
  "RecordAccess
     \<lparr>node_store = [1 \<mapsto> \<lparr>history = [5], node_k = 2, fid = 1, is_evictable = False\<rparr>],
      lru_list = [1], current_timestamp = 0, curr_size = 0, replacer_size = 3, repl_k = 2\<rparr>
     2 5
   = Inr \<lparr>node_store = [1 \<mapsto> \<lparr>history = [5], node_k = 2, fid = 1, is_evictable = False\<rparr>,
                        2 \<mapsto> \<lparr>history = [5], node_k = 2, fid = 2, is_evictable = False\<rparr>],
          lru_list = [1, 2], current_timestamp = 0, curr_size = 0, replacer_size = 3,
          repl_k = 2\<rparr>"
  by (auto simp: RecordAccess_def LRUKNode_RecordAccess_def print_list_def node_less_def
      fun_eq_iff)

theorem record_access_stores_clock_reading_witness:
  "\<exists>n. node_store
          \<lparr>node_store = [1 \<mapsto> \<lparr>history = [5], node_k = 2, fid = 1, is_evictable = False\<rparr>,
                         2 \<mapsto> \<lparr>history = [5], node_k = 2, fid = 2, is_evictable = False\<rparr>],
           lru_list = [1, 2], current_timestamp = 0, curr_size = 0, replacer_size = 3,
           repl_k = 2\<rparr> 2 = Some n
       \<and> last (history n) = 5"
  using record_access_stores_clock_reading [OF run_same_second RecordAccess_same_second]
  by blast

text \<open>
  The claim fails as stated: two calls made within the same second of the wall clock both
  record the reading 5, so the later timestamp is not strictly larger than the earlier one.
\<close>

theorem record_access_same_second_counterexample:
  "run (LRUKReplacer_new 3 2) [OpRecordAccess 1 5, OpRecordAccess 2 5]
   = Inr \<lparr>node_store = [1 \<mapsto> \<lparr>history = [5], node_k = 2, fid = 1, is_evictable = False\<rparr>,
                        2 \<mapsto> \<lparr>history = [5], node_k = 2, fid = 2, is_evictable = False\<rparr>],
          lru_list = [1, 2], current_timestamp = 0, curr_size = 0, replacer_size = 3,
          repl_k = 2\<rparr>
   \<and> \<not> last (history \<lparr>history = [5], node_k = 2, fid = 1, is_evictable = False\<rparr>)
        < last (history \<lparr>history = [5], node_k = 2, fid = 2, is_evictable = False\<rparr>)"
proof -
  have "run (LRUKReplacer_new 3 2) ([OpRecordAccess 1 5] @ [OpRecordAccess 2 5])
   = Inr \<lparr>node_store = [1 \<mapsto> \<lparr>history = [5], node_k = 2, fid = 1, is_evictable = False\<rparr>,
                        2 \<mapsto> \<lparr>history = [5], node_k = 2, fid = 2, is_evictable = False\<rparr>],
          lru_list = [1, 2], current_timestamp = 0, curr_size = 0, replacer_size = 3,
          repl_k = 2\<rparr>"
    unfolding run_append run_same_second by (simp add: RecordAccess_same_second)
  then show ?thesis by simp
qed

section \<open>Properties of the disk scheduler\<close>

lemma dispatch_facts:
  "background_thread (dispatch r w) = background_thread w"
  "promises (dispatch r w) = promises w"
  "trace (dispatch r w) = trace w @ [disk_call r]"
  "replacer (dispatch r w) = replacer w"
  by (simp_all add: dispatch_def disk_call_def log_event_def split: option.splits)

lemma serve_facts:
  assumes "promises w (callback r) = None"
  shows "background_thread (set_value (callback r) True (dispatch r w)) = background_thread w"
    and "promises (set_value (callback r) True (dispatch r w)) = (promises w)(callback r \<mapsto> True)"
    and "trace (set_value (callback r) True (dispatch r w))
           = trace w @ [disk_call r, Fulfilled (callback r) True]"
  using assms by (simp_all add: set_value_def dispatch_facts log_event_def)

lemma worker_loop_serves:
  assumes "background_thread w = Alive" "distinct (map callback reqs)"
    and "\<forall>r\<in>set reqs. promises w (callback r) = None"
    and "tail = [] \<or> (\<exists>rest. tail = None # rest)"
  shows "background_thread (worker_loop (map Some reqs @ tail) w)
           = (if tail = [] then Alive else Exited)
         \<and> request_queue (worker_loop (map Some reqs @ tail) w) = tl tail
         \<and> trace (worker_loop (map Some reqs @ tail) w)
             = trace w @ concat (map (\<lambda>r. [disk_call r, Fulfilled (callback r) True]) reqs)
         \<and> (\<forall>r\<in>set reqs. promises (worker_loop (map Some reqs @ tail) w) (callback r) = Some True)
         \<and> (\<forall>p. p \<notin> callback ` set reqs \<longrightarrow>
               promises (worker_loop (map Some reqs @ tail) w) p = promises w p)"
  using assms(1-3)
proof (induction reqs arbitrary: w)
  case Nil
  then show ?case using assms(4) by auto
next
  case (Cons r rs)
  let ?w1 = "set_value (callback r) True (dispatch r w)"
  have none: "promises w (callback r) = None" using Cons.prems(3) by simp
  note f = serve_facts [OF none]
  have alive: "background_thread ?w1 = Alive" using f(1) Cons.prems(1) by simp
  have d: "distinct (map callback rs)" and nr: "callback r \<notin> callback ` set rs"
    using Cons.prems(2) by auto
  have pend: "\<forall>r'\<in>set rs. promises ?w1 (callback r') = None"
  proof
    fix r' assume r': "r' \<in> set rs"
    then have "callback r' \<noteq> callback r" using nr by (metis imageI)
    then show "promises ?w1 (callback r') = None" using Cons.prems(3) r' f(2) by simp
  qed
  have step: "worker_loop (map Some (r # rs) @ tail) w = worker_loop (map Some rs @ tail) ?w1"
    using alive by (simp add: Let_def)
  from Cons.IH [OF alive d pend] have IH:
    "background_thread (worker_loop (map Some rs @ tail) ?w1) = (if tail = [] then Alive else Exited)"
    "request_queue (worker_loop (map Some rs @ tail) ?w1) = tl tail"
    "trace (worker_loop (map Some rs @ tail) ?w1)
       = trace ?w1 @ concat (map (\<lambda>r. [disk_call r, Fulfilled (callback r) True]) rs)"
    "\<forall>r\<in>set rs. promises (worker_loop (map Some rs @ tail) ?w1) (callback r) = Some True"
    "\<forall>p. p \<notin> callback ` set rs \<longrightarrow> promises (worker_loop (map Some rs @ tail) ?w1) p = promises ?w1 p"
    by blast+
  have here: "promises (worker_loop (map Some rs @ tail) ?w1) (callback r) = Some True"
    using IH(5) nr f(2) by simp
  have other: "\<forall>p. p \<notin> callback ` set (r # rs) \<longrightarrow>
      promises (worker_loop (map Some rs @ tail) ?w1) p = promises w p"
    using IH(5) f(2) by simp
  show ?case unfolding step using IH(1,2,3,4) here other f(3) by simp
qed

lemma schedule_all_facts:
  "request_queue (schedule_all rs w) = request_queue w @ map Some rs"
  "trace (schedule_all rs w) = trace w @ map Scheduled rs"
  "background_thread (schedule_all rs w) = background_thread w"
  "promises (schedule_all rs w) = promises w"
  by (induction rs arbitrary: w) (simp_all add: Schedule_def log_event_def)

text \<open>
  Claim C9, as the code has it. Requests scheduled before the sentinel are served in the
  order of the \<open>Schedule\<close> calls, each by one call of the disk manager (\<open>WritePage\<close> for
  a write request, \<open>ReadPage\<close> for a read request) followed by one \<open>set_value(true)\<close>
  on its promise, whatever the disk manager did with the transfer; the worker then returns at
  the sentinel. Without the sentinel it serves the same requests and stays waiting. The
  requests own distinct promises that hold no value yet, and the disk manager's calls return.
\<close>

theorem worker_serves_in_fifo_order:
  assumes "background_thread w = Alive" and "request_queue w = []"
    and "distinct (map callback reqs)" and "\<forall>r\<in>set reqs. promises w (callback r) = None"
  shows "background_thread (StartWorkerThread (put_sentinel (schedule_all reqs w))) = Exited
         \<and> request_queue (StartWorkerThread (put_sentinel (schedule_all reqs w))) = []
         \<and> trace (StartWorkerThread (put_sentinel (schedule_all reqs w)))
             = trace w @ map Scheduled reqs
               @ concat (map (\<lambda>r. [disk_call r, Fulfilled (callback r) True]) reqs)
         \<and> (\<forall>r\<in>set reqs.
               promises (StartWorkerThread (put_sentinel (schedule_all reqs w))) (callback r)
                 = Some True)
         \<and> background_thread (StartWorkerThread (schedule_all reqs w)) = Alive
         \<and> trace (StartWorkerThread (schedule_all reqs w))
             = trace (StartWorkerThread (put_sentinel (schedule_all reqs w)))"
proof -
  let ?s = "schedule_all reqs w"
  have q: "request_queue ?s = map Some reqs" and al: "background_thread ?s = Alive"
    and pr: "\<forall>r\<in>set reqs. promises ?s (callback r) = None"
    and tr: "trace ?s = trace w @ map Scheduled reqs"
    using assms by (simp_all add: schedule_all_facts)
  have a: "StartWorkerThread (put_sentinel ?s)
      = worker_loop (map Some reqs @ [None]) (put_sentinel ?s)"
    using q al by (simp add: StartWorkerThread_def put_sentinel_def)
  have b: "StartWorkerThread ?s = worker_loop (map Some reqs @ []) ?s"
    using q al by (simp add: StartWorkerThread_def)
  have al': "background_thread (put_sentinel ?s) = Alive"
    and pr': "\<forall>r\<in>set reqs. promises (put_sentinel ?s) (callback r) = None"
    and tr': "trace (put_sentinel ?s) = trace w @ map Scheduled reqs"
    using al pr tr by (simp_all add: put_sentinel_def)
  from worker_loop_serves [OF al' assms(3) pr', of "[None]"]
       worker_loop_serves [OF al assms(3) pr, of "[]"]
  show ?thesis unfolding a b using tr tr' by simp
qed

theorem worker_serves_in_fifo_order_witness:
  "background_thread
     (StartWorkerThread (put_sentinel (schedule_all [example_request] failing_world))) = Exited
   \<and> trace (StartWorkerThread (put_sentinel (schedule_all [example_request] failing_world)))
       = [Scheduled example_request, WritePageCall 7 0, Fulfilled 0 True]"
  using worker_serves_in_fifo_order [of failing_world "[example_request]"]
  by (simp add: failing_world_def example_world_def example_request_def disk_call_def)

text \<open>
  The claim fails where it promises \<open>false\<close> on failure: the transfer of the request
  fails, nothing is persisted for page 7, and the promise still receives \<open>true\<close>.
\<close>

theorem worker_reports_true_on_failure_counterexample:
  "io_fails (disk_manager failing_world) (req_page_id example_request)
   \<and> promises (StartWorkerThread (put_sentinel (Schedule example_request failing_world)))
       (callback example_request) = Some True
   \<and> pages (disk_manager
              (StartWorkerThread (put_sentinel (Schedule example_request failing_world)))) 7
       = []
   \<and> data (frames failing_world (req_data example_request)) = [1, 2, 3]"
  by (simp add: failing_world_def example_world_def example_request_def Schedule_def
      put_sentinel_def StartWorkerThread_def log_event_def set_value_def dispatch_def
      WritePage_def)

section \<open>Properties of the page guards\<close>

subsection \<open>Flush\<close>

lemma Flush_same: "WritePageGuard_Flush = ReadPageGuard_Flush"
  by (intro ext) (simp add: WritePageGuard_Flush_def ReadPageGuard_Flush_def)

lemma Flush_dirty:
  assumes "is_valid g" "background_thread w = Alive" "request_queue w = []"
    and "is_dirty (frames w (frame g))"
  shows "ReadPageGuard_Flush g w =
     Returned (w\<lparr>frames := (frames w)(frame g := (frames w (frame g))\<lparr>is_dirty := False\<rparr>),
                 disk_manager := WritePage (disk_manager w) (page_id g) (data (frames w (frame g))),
                 request_queue := [],
                 promises := (promises w)(next_promise w \<mapsto> True),
                 next_promise := next_promise w + 1,
                 trace := trace w @
                   [Acquire (DataLatch (frame g)), DirtyStore (frame g) False,
                    Release (DataLatch (frame g)),
                    Scheduled \<lparr>is_write = True, req_data = frame g, req_page_id = page_id g,
                               callback = next_promise w\<rparr>,
                    WritePageCall (page_id g) (frame g), Fulfilled (next_promise w) True,
                    Awaited (next_promise w)]\<rparr>)"
  using assms
  by (simp add: ReadPageGuard_Flush_def Let_def log_event_def CreatePromise_def Schedule_def
      await_def StartWorkerThread_def set_value_def dispatch_def)

lemma Flush_clean:
  assumes "is_valid g" "\<not> is_dirty (frames w (frame g))"
  shows "ReadPageGuard_Flush g w =
     Returned (w\<lparr>trace := trace w @ [Acquire (DataLatch (frame g)), Release (DataLatch (frame g))]\<rparr>)"
  using assms by (simp add: ReadPageGuard_Flush_def Let_def log_event_def)

text \<open>
  Claim C3. With the worker waiting and nothing pending, \<open>Flush\<close> of a valid guard on a
  dirty frame returns, and up to then it has done exactly this, in this order: taken the data
  latch, cleared the dirty flag, released the latch, scheduled one write request with the
  frame's buffer and the guard's page id, and waited until the worker had called
  \<open>WritePage\<close> with the bytes of the frame and fulfilled the promise. The flag is false
  afterwards and the bytes are unchanged. On a frame that is not dirty it takes and releases
  the latch and nothing else. Both guards behave the same.
\<close>

theorem flush_dirty_frame:
  assumes "is_valid g" and "background_thread w = Alive" and "request_queue w = []"
  shows "(is_dirty (frames w (frame g)) \<longrightarrow>
            (\<exists>w'. ReadPageGuard_Flush g w = Returned w' \<and> WritePageGuard_Flush g w = Returned w'
               \<and> \<not> is_dirty (frames w' (frame g))
               \<and> data (frames w' (frame g)) = data (frames w (frame g))
               \<and> trace w' = trace w @
                    [Acquire (DataLatch (frame g)), DirtyStore (frame g) False,
                     Release (DataLatch (frame g)),
                     Scheduled \<lparr>is_write = True, req_data = frame g, req_page_id = page_id g,
                                callback = next_promise w\<rparr>,
                     WritePageCall (page_id g) (frame g), Fulfilled (next_promise w) True,
                     Awaited (next_promise w)]
               \<and> disk_manager w'
                    = WritePage (disk_manager w) (page_id g) (data (frames w (frame g)))
               \<and> request_queue w' = [] \<and> replacer w' = replacer w))
         \<and> (\<not> is_dirty (frames w (frame g)) \<longrightarrow>
              ReadPageGuard_Flush g w
                = Returned (w\<lparr>trace := trace w @ [Acquire (DataLatch (frame g)),
                                                   Release (DataLatch (frame g))]\<rparr>)
              \<and> WritePageGuard_Flush g w = ReadPageGuard_Flush g w)"
proof (intro conjI impI)
  assume d: "is_dirty (frames w (frame g))"
  show "\<exists>w'. ReadPageGuard_Flush g w = Returned w' \<and> WritePageGuard_Flush g w = Returned w'
               \<and> \<not> is_dirty (frames w' (frame g))
               \<and> data (frames w' (frame g)) = data (frames w (frame g))
               \<and> trace w' = trace w @
                    [Acquire (DataLatch (frame g)), DirtyStore (frame g) False,
                     Release (DataLatch (frame g)),
                     Scheduled \<lparr>is_write = True, req_data = frame g, req_page_id = page_id g,
                                callback = next_promise w\<rparr>,
                     WritePageCall (page_id g) (frame g), Fulfilled (next_promise w) True,
                     Awaited (next_promise w)]
               \<and> disk_manager w'
                    = WritePage (disk_manager w) (page_id g) (data (frames w (frame g)))
               \<and> request_queue w' = [] \<and> replacer w' = replacer w"
    unfolding Flush_same Flush_dirty [OF assms d] by simp
next
  assume c: "\<not> is_dirty (frames w (frame g))"
  show "ReadPageGuard_Flush g w
          = Returned (w\<lparr>trace := trace w @ [Acquire (DataLatch (frame g)),
                                             Release (DataLatch (frame g))]\<rparr>)"
    using assms(1) c by (rule Flush_clean)
  show "WritePageGuard_Flush g w = ReadPageGuard_Flush g w" by (simp add: Flush_same)
qed

theorem flush_dirty_frame_witness:
  "\<exists>w'. WritePageGuard_Flush example_guard (make_dirty 0 example_world) = Returned w'
        \<and> \<not> is_dirty (frames w' 0)
        \<and> pages (disk_manager w') 7 = [1, 2, 3]"
proof -
  have "is_valid example_guard" "background_thread (make_dirty 0 example_world) = Alive"
    "request_queue (make_dirty 0 example_world) = []"
    by (simp_all add: example_guard_def make_dirty_def example_world_def)
  from flush_dirty_frame [OF this]
  show ?thesis
    by (auto simp: example_guard_def make_dirty_def example_world_def WritePage_def)
qed

text \<open>
  Claim C4, as the code has it. Nothing reports a failed transfer: the flag is cleared before
  the request is scheduled and never set again, and the worker fulfils the promise with
  \<open>true\<close> whatever the disk manager did. So \<open>Flush\<close> on a dirty frame returns normally
  with the flag false, also when the write failed and the page on disk is what it was.
\<close>

theorem flush_clears_dirty_on_failure:
  assumes "is_valid g" and "background_thread w = Alive" and "request_queue w = []"
    and "is_dirty (frames w (frame g))"
  shows "\<exists>w'. WritePageGuard_Flush g w = Returned w'
           \<and> \<not> is_dirty (frames w' (frame g))
           \<and> promises w' (next_promise w) = Some True
           \<and> (io_fails (disk_manager w) (page_id g) \<longrightarrow> disk_manager w' = disk_manager w)"
  unfolding Flush_same Flush_dirty [OF assms] by (simp add: WritePage_def)

theorem flush_clears_dirty_on_failure_witness:
  "\<exists>w'. WritePageGuard_Flush example_guard (make_dirty 0 failing_world) = Returned w'
        \<and> \<not> is_dirty (frames w' 0)
        \<and> promises w' 0 = Some True
        \<and> disk_manager w' = disk_manager failing_world"
proof -
  have "is_valid example_guard" "background_thread (make_dirty 0 failing_world) = Alive"
    "request_queue (make_dirty 0 failing_world) = []"
    "is_dirty (frames (make_dirty 0 failing_world) (frame example_guard))"
    by (simp_all add: example_guard_def make_dirty_def failing_world_def example_world_def)
  from flush_clears_dirty_on_failure [OF this]
  show ?thesis
    by (auto simp: example_guard_def make_dirty_def failing_world_def example_world_def)
qed

text \<open>
  The claim fails as stated: the write of page 7 fails, \<open>Flush\<close> returns normally, not with
  an error, and the dirty flag, true before, is false.
\<close>

theorem flush_failure_counterexample:
  "io_fails (disk_manager (make_dirty 0 failing_world)) (page_id example_guard)
   \<and> is_dirty (frames (make_dirty 0 failing_world) (frame example_guard))
   \<and> (case WritePageGuard_Flush example_guard (make_dirty 0 failing_world) of
         Returned w' \<Rightarrow> \<not> is_dirty (frames w' (frame example_guard))
                         \<and> pages (disk_manager w') 7 = []
       | Aborted \<Rightarrow> False
       | Blocked \<Rightarrow> False)"
  by (simp add: WritePageGuard_Flush_def Let_def log_event_def CreatePromise_def Schedule_def
      await_def StartWorkerThread_def set_value_def dispatch_def WritePage_def
      example_guard_def make_dirty_def failing_world_def example_world_def)

subsection \<open>Drop\<close>

lemma unpin_facts:
  "pin_count (frames (unpin others p w) p)
     = (if pin_count (frames w p) = 1 then others 0 else pin_count (frames w p) - 1)"
  "replacer (unpin others p w)
     = (if pin_count (frames w p) = 1 \<and> others 0 = 0
        then SetEvictable (replacer w) (frame_id (frames w p)) True else replacer w)"
  "trace (unpin others p w)
     = trace w @
       (if pin_count (frames w p) = 1
        then [PinFetchSub p, Acquire BpmLatch]
             @ (if others 0 = 0 then [SetEvictableCall (frame_id (frames w p)) True] else [])
             @ [Release BpmLatch]
        else [PinFetchSub p])"
  "frame_id (frames (unpin others p w) q) = frame_id (frames w q)"
  by (simp_all add: unpin_def Let_def log_event_def)

lemma Read_Drop_valid:
  "is_valid g \<Longrightarrow>
   ReadPageGuard_Drop others (g, w)
     = (g\<lparr>is_valid := False\<rparr>,
        unpin others (frame g) (log_event (Release (RwLatchShared (frame g))) w))"
  by (simp add: ReadPageGuard_Drop_def)

lemma Write_Drop_valid:
  "is_valid g \<Longrightarrow>
   WritePageGuard_Drop others (g, w)
     = (g\<lparr>is_valid := False\<rparr>,
        unpin others (frame g)
          (log_event (Release (RwLatchExclusive (frame g)))
             (log_event (Release (DataLatch (frame g)))
                (log_event (DirtyStore (frame g) True)
                   (log_event (Acquire (DataLatch (frame g))) w
                      \<lparr>frames := (frames w)(frame g := (frames w (frame g))\<lparr>is_dirty := True\<rparr>)\<rparr>)))))"
  by (simp add: WritePageGuard_Drop_def Let_def log_event_def)

lemma Drop_invalid:
  "\<not> is_valid g \<Longrightarrow> ReadPageGuard_Drop others (g, w) = (g, w)"
  "\<not> is_valid g \<Longrightarrow> WritePageGuard_Drop others (g, w) = (g, w)"
  by (simp_all add: ReadPageGuard_Drop_def WritePageGuard_Drop_def)

lemma Drop_effect:
  assumes "is_valid g"
  shows "pin_count (frames (snd (ReadPageGuard_Drop others (g, w))) (frame g))
           = (if pin_count (frames w (frame g)) = 1 then others 0
              else pin_count (frames w (frame g)) - 1)"
    and "pin_count (frames (snd (WritePageGuard_Drop others (g, w))) (frame g))
           = (if pin_count (frames w (frame g)) = 1 then others 0
              else pin_count (frames w (frame g)) - 1)"
    and "replacer (snd (ReadPageGuard_Drop others (g, w)))
           = (if pin_count (frames w (frame g)) = 1 \<and> others 0 = 0
              then SetEvictable (replacer w) (frame_id (frames w (frame g))) True
              else replacer w)"
    and "replacer (snd (WritePageGuard_Drop others (g, w)))
           = (if pin_count (frames w (frame g)) = 1 \<and> others 0 = 0
              then SetEvictable (replacer w) (frame_id (frames w (frame g))) True
              else replacer w)"
    and "frame_id (frames (snd (ReadPageGuard_Drop others (g, w))) q) = frame_id (frames w q)"
    and "frame_id (frames (snd (WritePageGuard_Drop others (g, w))) q) = frame_id (frames w q)"
    and "is_dirty (frames (snd (WritePageGuard_Drop others (g, w))) (frame g))"
  using assms
  by (simp_all add: Read_Drop_valid Write_Drop_valid unpin_facts log_event_def)
     (simp_all add: unpin_def Let_def log_event_def)

lemma Drop_trace:
  assumes "is_valid g"
  shows "trace (snd (ReadPageGuard_Drop others (g, w)))
           = trace w @ Release (RwLatchShared (frame g)) #
             (if pin_count (frames w (frame g)) = 1
              then [PinFetchSub (frame g), Acquire BpmLatch]
                   @ (if others 0 = 0
                      then [SetEvictableCall (frame_id (frames w (frame g))) True] else [])
                   @ [Release BpmLatch]
              else [PinFetchSub (frame g)])"
    and "trace (snd (WritePageGuard_Drop others (g, w)))
           = trace w @ [Acquire (DataLatch (frame g)), DirtyStore (frame g) True,
                        Release (DataLatch (frame g)), Release (RwLatchExclusive (frame g))]
             @ (if pin_count (frames w (frame g)) = 1
                then [PinFetchSub (frame g), Acquire BpmLatch]
                     @ (if others 0 = 0
                        then [SetEvictableCall (frame_id (frames w (frame g))) True] else [])
                     @ [Release BpmLatch]
                else [PinFetchSub (frame g)])"
  using assms
  by (simp_all add: Read_Drop_valid Write_Drop_valid unpin_facts log_event_def)

text \<open>
  Claim C8. A second \<open>Drop\<close> (the destructor's, say) changes neither the guard nor the
  world; after the first the guard is invalid; a valid guard's two drops make one
  \<open>fetch_sub\<close> on the pin count of its frame, which (no other thread pinning or unpinning in
  between) is one less than before. An invalid guard's \<open>Drop\<close> does nothing.
\<close>

theorem drop_idempotent:
  "ReadPageGuard_Drop o2 (ReadPageGuard_Drop o1 (g, w)) = ReadPageGuard_Drop o1 (g, w)
   \<and> WritePageGuard_Drop o2 (WritePageGuard_Drop o1 (g, w)) = WritePageGuard_Drop o1 (g, w)
   \<and> \<not> is_valid (fst (ReadPageGuard_Drop o1 (g, w)))
   \<and> \<not> is_valid (fst (WritePageGuard_Drop o1 (g, w)))
   \<and> (is_valid g \<longrightarrow>
        count_list (trace (snd (ReadPageGuard_Drop o2 (ReadPageGuard_Drop o1 (g, w)))))
            (PinFetchSub (frame g))
          = count_list (trace w) (PinFetchSub (frame g)) + 1
        \<and> count_list (trace (snd (WritePageGuard_Drop o2 (WritePageGuard_Drop o1 (g, w)))))
            (PinFetchSub (frame g))
          = count_list (trace w) (PinFetchSub (frame g)) + 1
        \<and> pin_count (frames (snd (ReadPageGuard_Drop id (ReadPageGuard_Drop id (g, w)))) (frame g))
          = pin_count (frames w (frame g)) - 1
        \<and> pin_count (frames (snd (WritePageGuard_Drop id (WritePageGuard_Drop id (g, w)))) (frame g))
          = pin_count (frames w (frame g)) - 1)
   \<and> (\<not> is_valid g \<longrightarrow>
        ReadPageGuard_Drop o1 (g, w) = (g, w) \<and> WritePageGuard_Drop o1 (g, w) = (g, w))"
proof -
  have r2: "ReadPageGuard_Drop oth (ReadPageGuard_Drop o1 (g, w)) = ReadPageGuard_Drop o1 (g, w)" for oth
    by (cases "is_valid g") (simp_all add: Read_Drop_valid Drop_invalid)
  have w2: "WritePageGuard_Drop oth (WritePageGuard_Drop o1 (g, w)) = WritePageGuard_Drop o1 (g, w)" for oth
    by (cases "is_valid g") (simp_all add: Write_Drop_valid Drop_invalid)
  have r2': "ReadPageGuard_Drop id (ReadPageGuard_Drop id (g, w)) = ReadPageGuard_Drop id (g, w)"
    by (cases "is_valid g") (simp_all add: Read_Drop_valid Drop_invalid)
  have w2': "WritePageGuard_Drop id (WritePageGuard_Drop id (g, w)) = WritePageGuard_Drop id (g, w)"
    by (cases "is_valid g") (simp_all add: Write_Drop_valid Drop_invalid)
  have inv: "\<not> is_valid (fst (ReadPageGuard_Drop o1 (g, w)))"
    "\<not> is_valid (fst (WritePageGuard_Drop o1 (g, w)))"
    by (cases "is_valid g"; simp add: Read_Drop_valid Write_Drop_valid Drop_invalid)+
  have once: "count_list (trace (snd (ReadPageGuard_Drop o1 (g, w)))) (PinFetchSub (frame g))
          = count_list (trace w) (PinFetchSub (frame g)) + 1"
    "count_list (trace (snd (WritePageGuard_Drop o1 (g, w)))) (PinFetchSub (frame g))
          = count_list (trace w) (PinFetchSub (frame g)) + 1"
    "pin_count (frames (snd (ReadPageGuard_Drop id (g, w))) (frame g))
          = pin_count (frames w (frame g)) - 1"
    "pin_count (frames (snd (WritePageGuard_Drop id (g, w))) (frame g))
          = pin_count (frames w (frame g)) - 1"
    if "is_valid g"
    using that by (simp_all add: Drop_trace Drop_effect)
  show ?thesis unfolding r2 w2 r2' w2' using inv once Drop_invalid [of g] by blast
qed

theorem drop_idempotent_witness:
  "ReadPageGuard_Drop id (ReadPageGuard_Drop id (example_guard, example_world))
     = ReadPageGuard_Drop id (example_guard, example_world)
   \<and> pin_count (frames (snd (ReadPageGuard_Drop id
                                (ReadPageGuard_Drop id (example_guard, example_world))))
                  (frame example_guard)) = 0
   \<and> ReadPageGuard_Drop id (example_guard\<lparr>is_valid := False\<rparr>, example_world)
       = (example_guard\<lparr>is_valid := False\<rparr>, example_world)"
proof -
  have v: "is_valid example_guard" by (simp add: example_guard_def)
  have p: "pin_count (frames example_world (frame example_guard)) - 1 = 0"
    by (simp add: example_world_def)
  have n: "\<not> is_valid (example_guard\<lparr>is_valid := False\<rparr>)" by simp
  from drop_idempotent [of id id example_guard example_world] v
  have "ReadPageGuard_Drop id (ReadPageGuard_Drop id (example_guard, example_world))
          = ReadPageGuard_Drop id (example_guard, example_world)"
    and "pin_count (frames (snd (ReadPageGuard_Drop id
                                (ReadPageGuard_Drop id (example_guard, example_world))))
                  (frame example_guard))
          = pin_count (frames example_world (frame example_guard)) - 1"
    by blast+
  moreover from drop_idempotent [of id id "example_guard\<lparr>is_valid := False\<rparr>" example_world] n
  have "ReadPageGuard_Drop id (example_guard\<lparr>is_valid := False\<rparr>, example_world)
       = (example_guard\<lparr>is_valid := False\<rparr>, example_world)"
    by blast
  ultimately show ?thesis using p by simp
qed












end
